theory Spec2Isabelle
  imports Main "HOL-Library.Sublist"
begin

section \<open>Python string primitives\<close>

text \<open>
  A Python \<open>str\<close> is modelled as a \<open>string\<close>, one \<open>char\<close> per code point; the model
  covers the code points below 256. Backslash and double quote cannot be written inside
  a string literal, so they are named.
\<close>

abbreviation bsl :: char where "bsl \<equiv> CHR 0x5C"
abbreviation dq :: char where "dq \<equiv> CHR 0x22"
abbreviation nl :: char where "nl \<equiv> CHR ''\<newline>''"

text \<open>\<open>str.isspace\<close> (also the class \<open>\s\<close> of \<open>re\<close>) on code points below 256.\<close>

definition is_space :: "char \<Rightarrow> bool" where
  "is_space c = (c \<in> set [CHR 0x09, CHR 0x0A, CHR 0x0B, CHR 0x0C, CHR 0x0D,
     CHR 0x1C, CHR 0x1D, CHR 0x1E, CHR 0x1F, CHR 0x20, CHR 0x85, CHR 0xA0])"

text \<open>The class \<open>\d\<close> and the range \<open>0-9\<close>: below 256 both are the ASCII digits.\<close>

definition is_digit :: "char \<Rightarrow> bool" where
  "is_digit c = (c \<in> set ''0123456789'')"

text \<open>\<open>s.strip()\<close>, \<open>s.lstrip('>')\<close>.\<close>

definition strip :: "string \<Rightarrow> string" where
  "strip s = rev (dropWhile is_space (rev (dropWhile is_space s)))"

definition lstrip_gt :: "string \<Rightarrow> string" where
  "lstrip_gt s = dropWhile (\<lambda>c. c = CHR ''>'') s"

text \<open>\<open>s.find(pat)\<close>: the index of the first occurrence, \<open>None\<close> for Python's \<open>-1\<close>.\<close>

fun find_str :: "string \<Rightarrow> string \<Rightarrow> nat option" where
  "find_str pat [] = (if pat = [] then Some 0 else None)"
| "find_str pat (c # cs) =
     (if prefix pat (c # cs) then Some 0 else map_option Suc (find_str pat cs))"

text \<open>
  \<open>s.replace(old, new)\<close> for a non-empty \<open>old\<close> (every call passes a non-empty literal
  or a placeholder token): occurrences are replaced left to right, without overlap.
\<close>

function replace :: "string \<Rightarrow> string \<Rightarrow> string \<Rightarrow> string" where
  "replace old new [] = []"
| "replace old new (c # cs) =
     (if prefix old (c # cs) then new @ replace old new (drop (length old - 1) cs)
      else c # replace old new cs)"
  by pat_completeness auto
termination
  by (relation "measure (\<lambda>(old, new, s). length s)") auto

text \<open>\<open>s.split(sep)\<close> for a non-empty \<open>sep\<close>, with the piece being read in \<open>acc\<close>.\<close>

function split_acc :: "string \<Rightarrow> string \<Rightarrow> string \<Rightarrow> string list" where
  "split_acc sep acc [] = [acc]"
| "split_acc sep acc (c # cs) =
     (if prefix sep (c # cs) then acc # split_acc sep [] (drop (length sep - 1) cs)
      else split_acc sep (acc @ [c]) cs)"
  by pat_completeness auto
termination
  by (relation "measure (\<lambda>(sep, acc, s). length s)") auto

definition split :: "string \<Rightarrow> string \<Rightarrow> string list" where
  "split sep s = split_acc sep [] s"

text \<open>\<open>sep.join(xs)\<close>.\<close>

fun join :: "string \<Rightarrow> string list \<Rightarrow> string" where
  "join sep [] = []"
| "join sep [x] = x"
| "join sep (x # y # ys) = x @ sep @ join sep (y # ys)"

text \<open>\<open>str(n)\<close> for a natural number, as \<open>str.format\<close> prints an index.\<close>

definition digit_char :: "nat \<Rightarrow> char" where
  "digit_char d = ''0123456789'' ! d"

function str_of_nat :: "nat \<Rightarrow> string" where
  "str_of_nat n =
     (if n < 10 then [digit_char n] else str_of_nat (n div 10) @ [digit_char (n mod 10)])"
  by pat_completeness auto
termination
  by (relation "measure id") auto

declare str_of_nat.simps [simp del]

section \<open>Regular-expression substitution\<close>

text \<open>
  \<open>re.sub(pattern, repl, text)\<close> scans the text from left to right. At each position the
  pattern is tried; a matcher gets the character before the position (\<open>None\<close> at the
  start of the text: this is what \<open>^\<close> and a look-behind read) and the rest of the text,
  and returns the length of the match and its groups (group 0 first). A match is
  replaced by what \<open>repl\<close> returns and the scan resumes at its end; otherwise the
  character is copied. No pattern of this program matches the empty string, so a match
  has at least one character.
\<close>

type_synonym matcher = "char option \<Rightarrow> string \<Rightarrow> (nat \<times> string list) option"

function re_sub :: "matcher \<Rightarrow> (string list \<Rightarrow> string) \<Rightarrow> char option \<Rightarrow> string \<Rightarrow> string" where
  "re_sub m repl prev [] = []"
| "re_sub m repl prev (c # cs) =
     (case m prev (c # cs) of
        Some (n, groups) \<Rightarrow>
          repl groups @ re_sub m repl (Some ((c # cs) ! (n - 1))) (drop (n - 1) cs)
      | None \<Rightarrow> c # re_sub m repl (Some c) cs)"
  by pat_completeness auto
termination
  by (relation "measure (\<lambda>(m, repl, prev, s). length s)") auto

text \<open>The same scan with a callback that reads and updates a state (a closure's \<open>nonlocal\<close>s).\<close>

function re_sub_st ::
  "matcher \<Rightarrow> (string list \<Rightarrow> 's \<Rightarrow> string \<times> 's) \<Rightarrow> char option \<Rightarrow> string \<Rightarrow> 's \<Rightarrow> string \<times> 's"
where
  "re_sub_st m cb prev [] st = ([], st)"
| "re_sub_st m cb prev (c # cs) st =
     (case m prev (c # cs) of
        Some (n, groups) \<Rightarrow>
          (case cb groups st of (r, st') \<Rightarrow>
             (case re_sub_st m cb (Some ((c # cs) ! (n - 1))) (drop (n - 1) cs) st' of
                (out, st'') \<Rightarrow> (r @ out, st'')))
      | None \<Rightarrow> (case re_sub_st m cb (Some c) cs st of (out, st') \<Rightarrow> (c # out, st')))"
  by pat_completeness auto
termination
  by (relation "measure (\<lambda>(m, cb, prev, s, st). length s)") auto

text \<open>\<open>^\<close> under \<open>re.MULTILINE\<close>: at the start of the text or right after a newline.\<close>

definition at_line_start :: "char option \<Rightarrow> bool" where
  "at_line_start prev = (prev = None \<or> prev = Some nl)"

text \<open>
  A lazy group \<open>(.+?)\<close> followed by the rest of the pattern \<open>cont\<close>: the group takes one
  character that is not a newline, then the rest is tried, and on failure the group
  takes one more. The result is the length of the group and what \<open>cont\<close> returned.
\<close>

fun lazy_plus :: "(string \<Rightarrow> 'a option) \<Rightarrow> string \<Rightarrow> (nat \<times> 'a) option" where
  "lazy_plus cont [] = None"
| "lazy_plus cont (c # cs) =
     (if c = nl then None
      else (case cont cs of
              Some r \<Rightarrow> Some (1, r)
            | None \<Rightarrow> map_option (\<lambda>(k, r). (Suc k, r)) (lazy_plus cont cs)))"

section \<open>The patterns of the converter\<close>

text \<open>
  Each pattern of \<open>convert.py\<close> is a matcher. All of them are deterministic: a greedy
  class such as \<open>[^)]*\<close> takes the longest run, and giving characters back cannot help
  because the character that must follow is outside the class; a lazy \<open>.*?\<close> under
  \<open>re.DOTALL\<close> stops at the first occurrence of what follows it.
\<close>

text \<open>\<open>\\begin\{align\}(.*?)\\end\{align\}\<close> with \<open>re.DOTALL\<close>.\<close>

definition m_align :: matcher where
  "m_align prev s =
     (if prefix (bsl # ''begin{align}'') s then
        (case find_str (bsl # ''end{align}'') (drop 13 s) of
           Some k \<Rightarrow> Some (13 + k + 11, [take (13 + k + 11) s, take k (drop 13 s)])
         | None \<Rightarrow> None)
      else None)"

text \<open>\<open>\\begin\{([^}]+)\}(.*?)\\end\{\1\}\<close> with \<open>re.DOTALL\<close>.\<close>

definition m_env :: matcher where
  "m_env prev s =
     (if prefix (bsl # ''begin{'') s then
        (let name = takeWhile (\<lambda>c. c \<noteq> CHR ''}'') (drop 7 s);
             rest = drop (7 + length name) s
         in if name = [] \<or> \<not> prefix ''}'' rest then None
            else (case find_str (bsl # ''end{'' @ name @ ''}'') (drop 1 rest) of
                    Some k \<Rightarrow>
                      Some (7 + length name + 1 + k + (5 + length name + 1),
                            [take (7 + length name + 1 + k + (5 + length name + 1)) s,
                             name, take k (drop 1 rest)])
                  | None \<Rightarrow> None))
      else None)"

text \<open>\<open>\$\$(.*?)\$\$\<close> with \<open>re.DOTALL\<close>.\<close>

definition m_display :: matcher where
  "m_display prev s =
     (if prefix ''$$'' s then
        (case find_str ''$$'' (drop 2 s) of
           Some k \<Rightarrow> Some (k + 4, [take (k + 4) s, take k (drop 2 s)])
         | None \<Rightarrow> None)
      else None)"

text \<open>\<open>(?<!\$)\$([^$\n]+?)\$(?!\$)\<close>.\<close>

definition m_inline :: matcher where
  "m_inline prev s =
     (case s of
        [] \<Rightarrow> None
      | c # r \<Rightarrow>
          if c = CHR ''$'' \<and> prev \<noteq> Some (CHR ''$'') then
            (let body = takeWhile (\<lambda>x. x \<noteq> CHR ''$'' \<and> x \<noteq> nl) r;
                 rest = drop (length body) r
             in if body \<noteq> [] \<and> prefix ''$'' rest \<and> \<not> prefix ''$'' (drop 1 rest)
                then Some (length body + 2, [take (length body + 2) s, body])
                else None)
          else None)"

text \<open>\<open>\(([^)]*)\)\<close>.\<close>

definition m_paren :: matcher where
  "m_paren prev s =
     (case s of
        [] \<Rightarrow> None
      | c # r \<Rightarrow>
          if c = CHR ''('' then
            (let body = takeWhile (\<lambda>x. x \<noteq> CHR '')'') r
             in if prefix '')'' (drop (length body) r)
                then Some (length body + 2, [take (length body + 2) s, body])
                else None)
          else None)"

text \<open>
  \<open>^# (.+)$\<close>, \<open>^## (.+)$\<close>, \<open>^### (.+)$\<close>, \<open>^#### (.+)$\<close> with \<open>re.MULTILINE\<close>, by the
  number of \<open>#\<close>: the group is the rest of the line, which must not be empty.
\<close>

definition m_heading :: "nat \<Rightarrow> matcher" where
  "m_heading level prev s =
     (if at_line_start prev \<and> prefix (replicate level (CHR ''#'') @ '' '') s then
        (let body = takeWhile (\<lambda>c. c \<noteq> nl) (drop (level + 1) s)
         in if body = [] then None
            else Some (level + 1 + length body, [take (level + 1 + length body) s, body]))
      else None)"

text \<open>\<open>\*\*(.+?)\*\*\<close>.\<close>

definition m_bold :: matcher where
  "m_bold prev s =
     (if prefix ''**'' s then
        (case lazy_plus (\<lambda>t. if prefix ''**'' t then Some () else None) (drop 2 s) of
           Some (k, _) \<Rightarrow> Some (k + 4, [take (k + 4) s, take k (drop 2 s)])
         | None \<Rightarrow> None)
      else None)"

text \<open>\<open>(?<!\()\*(.+?)\*(?!\))\<close>.\<close>

definition m_italic :: matcher where
  "m_italic prev s =
     (case s of
        [] \<Rightarrow> None
      | c # r \<Rightarrow>
          if c = CHR ''*'' \<and> prev \<noteq> Some (CHR ''('') then
            (case lazy_plus
                    (\<lambda>t. if prefix ''*'' t \<and> \<not> prefix '')'' (drop 1 t) then Some () else None) r of
               Some (k, _) \<Rightarrow> Some (k + 2, [take (k + 2) s, take k r])
             | None \<Rightarrow> None)
          else None)"

text \<open>\<open>\[(.+?)\]\((.+?)\)\<close>: the second lazy group is tried for each end of the first.\<close>

definition m_link :: matcher where
  "m_link prev s =
     (case s of
        [] \<Rightarrow> None
      | c # r \<Rightarrow>
          if c = CHR ''['' then
            (case lazy_plus
                    (\<lambda>t. if prefix '']('' t
                         then map_option fst
                                (lazy_plus (\<lambda>u. if prefix '')'' u then Some () else None) (drop 2 t))
                         else None) r of
               Some (k, j) \<Rightarrow>
                 Some (k + j + 4, [take (k + j + 4) s, take k r, take j (drop (k + 2) r)])
             | None \<Rightarrow> None)
          else None)"

text \<open>\<open>\[(\d+)\]\<close>.\<close>

definition m_citation :: matcher where
  "m_citation prev s =
     (case s of
        [] \<Rightarrow> None
      | c # r \<Rightarrow>
          if c = CHR ''['' then
            (let ds = takeWhile is_digit r
             in if ds \<noteq> [] \<and> prefix '']'' (drop (length ds) r)
                then Some (length ds + 2, [take (length ds + 2) s, ds])
                else None)
          else None)"

text \<open>\<open>\[([^\]0-9][^\]]*)\]\<close>.\<close>

definition m_bracket_text :: matcher where
  "m_bracket_text prev s =
     (case s of
        c # x # r \<Rightarrow>
          if c = CHR ''['' \<and> x \<noteq> CHR '']'' \<and> \<not> is_digit x then
            (let body = takeWhile (\<lambda>y. y \<noteq> CHR '']'') r
             in if prefix '']'' (drop (length body) r)
                then Some (length body + 3, [take (length body + 3) s, x # body])
                else None)
          else None
      | _ \<Rightarrow> None)"

text \<open>\<open>(https?://\S+)\<close>.\<close>

definition m_url :: matcher where
  "m_url prev s =
     (if prefix ''http'' s then
        (let h = (if prefix ''s'' (drop 4 s) then 5 else 4)
         in if prefix ''://'' (drop h s) then
              (let body = takeWhile (\<lambda>c. \<not> is_space c) (drop (h + 3) s)
               in if body = [] then None
                  else Some (h + 3 + length body,
                             [take (h + 3 + length body) s, take (h + 3 + length body) s]))
            else None)
      else None)"

text \<open>
  \<open>^(#+)\s+References:?.*$\<close> with \<open>re.MULTILINE | re.IGNORECASE\<close>: below 256 only the
  ASCII letters have two cases. \<open>\s+\<close> also takes newlines.
\<close>

definition lower_ascii :: "char \<Rightarrow> char" where
  "lower_ascii c =
     (case map_of (zip ''ABCDEFGHIJKLMNOPQRSTUVWXYZ'' ''abcdefghijklmnopqrstuvwxyz'') c of
        Some l \<Rightarrow> l
      | None \<Rightarrow> c)"

definition m_references :: matcher where
  "m_references prev s =
     (if at_line_start prev then
        (let hashes = takeWhile (\<lambda>c. c = CHR ''#'') s;
             r1 = drop (length hashes) s;
             ws = takeWhile is_space r1;
             r2 = drop (length ws) r1
         in if hashes \<noteq> [] \<and> ws \<noteq> [] \<and> map lower_ascii (take 10 r2) = ''references'' then
              (let colon = (if prefix '':'' (drop 10 r2) then 1 else 0);
                   rest = takeWhile (\<lambda>c. c \<noteq> nl) (drop (10 + colon) r2);
                   n = length hashes + length ws + 10 + colon + length rest
               in Some (n, [take n s, hashes]))
            else None)
      else None)"

text \<open>\<open>re.search\<close>: the first position where the pattern matches, with the match.\<close>

fun re_search :: "matcher \<Rightarrow> char option \<Rightarrow> string \<Rightarrow> (nat \<times> nat \<times> string list) option" where
  "re_search m prev [] = None"
| "re_search m prev (c # cs) =
     (case m prev (c # cs) of
        Some (n, groups) \<Rightarrow> Some (0, n, groups)
      | None \<Rightarrow> map_option (\<lambda>(i, r). (Suc i, r)) (re_search m (Some c) cs))"

section \<open>Math extraction\<close>

text \<open>
  \<open>math_blocks\<close> is a list of pairs of a kind tag and the stored text; the tags are the
  four literals \<open>"align"\<close>, \<open>"env"\<close>, \<open>"display"\<close> and \<open>"inline"\<close>. \<open>math_blocks\<close> and
  \<open>has_math\<close> are the \<open>nonlocal\<close> variables of the four callbacks.
\<close>

datatype kind = Align | Env | Display | Inline

fun kind_name :: "kind \<Rightarrow> string" where
  "kind_name Align = ''align''"
| "kind_name Env = ''env''"
| "kind_name Display = ''display''"
| "kind_name Inline = ''inline''"

record conv_state =
  math_blocks :: "(kind \<times> string) list"
  has_math :: bool

definition init_state :: conv_state where
  "init_state = \<lparr>math_blocks = [], has_math = False\<rparr>"

text \<open>\<open>"MATH_PLACEHOLDER_{}_TYPE_{}".format(block_id, kind)\<close>.\<close>

definition placeholder_format :: "nat \<Rightarrow> kind \<Rightarrow> string" where
  "placeholder_format i k = ''MATH_PLACEHOLDER_'' @ str_of_nat i @ ''_TYPE_'' @ kind_name k"

definition extract_align_env :: "string list \<Rightarrow> conv_state \<Rightarrow> string \<times> conv_state" where
  "extract_align_env groups st =
     (let block_id = length (math_blocks st);
          content = groups ! 0;
          content = replace (bsl # ''begin{align}'') (bsl # ''begin{align*}'') content;
          content = replace (bsl # ''end{align}'') (bsl # ''end{align*}'') content
      in (placeholder_format block_id Align,
          st\<lparr>has_math := True, math_blocks := math_blocks st @ [(Align, content)]\<rparr>))"

definition extract_other_env :: "string list \<Rightarrow> conv_state \<Rightarrow> string \<times> conv_state" where
  "extract_other_env groups st =
     (let block_id = length (math_blocks st)
      in (placeholder_format block_id Env,
          st\<lparr>has_math := True, math_blocks := math_blocks st @ [(Env, groups ! 0)]\<rparr>))"

definition extract_display_math :: "string list \<Rightarrow> conv_state \<Rightarrow> string \<times> conv_state" where
  "extract_display_math groups st =
     (let block_id = length (math_blocks st)
      in (placeholder_format block_id Display,
          st\<lparr>has_math := True, math_blocks := math_blocks st @ [(Display, groups ! 1)]\<rparr>))"

definition extract_inline_math :: "string list \<Rightarrow> conv_state \<Rightarrow> string \<times> conv_state" where
  "extract_inline_math groups st =
     (let block_id = length (math_blocks st)
      in (placeholder_format block_id Inline,
          st\<lparr>has_math := True, math_blocks := math_blocks st @ [(Inline, groups ! 1)]\<rparr>))"

text \<open>The four passes, each on the text the previous one returned.\<close>

definition extract_math :: "string \<Rightarrow> conv_state \<Rightarrow> string \<times> conv_state" where
  "extract_math text st0 =
     (case re_sub_st m_align extract_align_env None text st0 of (t1, st1) \<Rightarrow>
      case re_sub_st m_env extract_other_env None t1 st1 of (t2, st2) \<Rightarrow>
      case re_sub_st m_display extract_display_math None t2 st2 of (t3, st3) \<Rightarrow>
      re_sub_st m_inline extract_inline_math None t3 st3)"

section \<open>Markdown rendering\<close>

definition notmath_open :: string where
  "notmath_open = ''<span class='' @ [dq] @ ''notmath'' @ [dq] @ ''>''"

text \<open>\<open>re.sub(r'\(([^)]*)\)', r'<span class="notmath">(\1)</span>', text)\<close>.\<close>

definition protect_parens :: "string \<Rightarrow> string" where
  "protect_parens text =
     re_sub m_paren (\<lambda>g. notmath_open @ ''('' @ g ! 1 @ '')</span>'') None text"

definition heading_repl :: "nat \<Rightarrow> string list \<Rightarrow> string" where
  "heading_repl level g = ''<h'' @ str_of_nat level @ ''>'' @ g ! 1 @ ''</h'' @ str_of_nat level @ ''>''"

definition sub_heading :: "nat \<Rightarrow> string \<Rightarrow> string" where
  "sub_heading level text = re_sub (m_heading level) (heading_repl level) None text"

text \<open>The line loop of \<open>process_regular_markdown\<close>: its three variables, and one iteration.\<close>

record render_state =
  in_list :: bool
  in_blockquote :: bool
  result :: "string list"

definition init_render :: render_state where
  "init_render = \<lparr>in_list = False, in_blockquote = False, result = []\<rparr>"

definition scan_line :: "render_state \<Rightarrow> string \<Rightarrow> render_state" where
  "scan_line st line =
     (if prefix ''>'' (strip line) then
        (let st1 = (if \<not> in_blockquote st
                    then st\<lparr>result := result st @ [''<blockquote>''], in_blockquote := True\<rparr>
                    else st)
         in st1\<lparr>result := result st1 @ [strip (lstrip_gt (strip line))]\<rparr>)
      else
        (let st1 = (if in_blockquote st
                    then st\<lparr>result := result st @ [''</blockquote>''], in_blockquote := False\<rparr>
                    else st)
         in if prefix ''- '' (strip line) then
              (let st2 = (if \<not> in_list st1
                          then st1\<lparr>result := result st1 @ [''<ul>''], in_list := True\<rparr>
                          else st1)
               in st2\<lparr>result := result st2 @ [''<li>'' @ drop 2 (strip line) @ ''</li>'']\<rparr>)
            else
              (let st2 = (if in_list st1
                          then st1\<lparr>result := result st1 @ [''</ul>''], in_list := False\<rparr>
                          else st1)
               in st2\<lparr>result := result st2 @ [line]\<rparr>)))"

definition scan_lines :: "string list \<Rightarrow> render_state" where
  "scan_lines lines = foldl scan_line init_render lines"

text \<open>After the loop: the wrappers still open are closed, the list first.\<close>

definition close_wrappers :: "render_state \<Rightarrow> string list" where
  "close_wrappers st =
     (let r1 = (if in_list st then result st @ [''</ul>''] else result st)
      in if in_blockquote st then r1 @ [''</blockquote>''] else r1)"

definition sub_bold :: "string \<Rightarrow> string" where
  "sub_bold text = re_sub m_bold (\<lambda>g. ''<strong>'' @ g ! 1 @ ''</strong>'') None text"

definition sub_italic :: "string \<Rightarrow> string" where
  "sub_italic text = re_sub m_italic (\<lambda>g. ''<em>'' @ g ! 1 @ ''</em>'') None text"

definition sub_link :: "string \<Rightarrow> string" where
  "sub_link text =
     re_sub m_link (\<lambda>g. ''<a href='' @ [dq] @ g ! 2 @ [dq] @ ''>'' @ g ! 1 @ ''</a>'') None text"

definition wrap_paragraph :: "string \<Rightarrow> string" where
  "wrap_paragraph p =
     (let trimmed_p = strip p
      in if trimmed_p \<noteq> [] \<and> \<not> prefix ''<'' trimmed_p \<and> \<not> suffix ''>'' trimmed_p
         then ''<p>'' @ trimmed_p @ ''</p>''
         else p)"

definition process_regular_markdown :: "string \<Rightarrow> string" where
  "process_regular_markdown text0 =
     (let text = sub_heading 1 text0;
          text = sub_heading 2 text;
          text = sub_heading 3 text;
          text = sub_heading 4 text;
          lines = split [nl] text;
          text = join [nl] (close_wrappers (scan_lines lines));
          text = sub_bold text;
          text = sub_italic text;
          text = sub_link text;
          paragraphs = split [nl, nl] text
      in join [nl] (map wrap_paragraph paragraphs))"

text \<open>\<open>escape_citation\<close> over \<open>\[(\d+)\]\<close>.\<close>

definition escape_citation :: "string list \<Rightarrow> string" where
  "escape_citation g = notmath_open @ ''['' @ g ! 1 @ '']</span>''"

definition protect_citations :: "string \<Rightarrow> string" where
  "protect_citations text = re_sub m_citation escape_citation None text"

section \<open>The References section\<close>

definition citation_number_repl :: "string list \<Rightarrow> string" where
  "citation_number_repl g =
     ''<span class='' @ [dq] @ ''citation-number'' @ [dq] @ ''><span class='' @ [dq]
       @ ''bracket-content'' @ [dq] @ ''>[<em><strong>'' @ g ! 1
       @ ''</strong></em>]</span></span>''"

definition bracket_text_repl :: "string list \<Rightarrow> string" where
  "bracket_text_repl g =
     ''<span class='' @ [dq] @ ''bracket-content'' @ [dq] @ ''>[<em>'' @ g ! 1 @ ''</em>]</span>''"

definition references_container :: "string \<Rightarrow> string" where
  "references_container body =
     ''<div class='' @ [dq] @ ''references'' @ [dq] @ '' data-mathjax='' @ [dq] @ ''ignore'' @ [dq]
       @ ''>'' @ [nl]
     @ ''    <style>'' @ [nl]
     @ ''        /* Prevent MathJax from interfering with reference formatting */'' @ [nl]
     @ ''        .references .citation-number strong { font-weight: bold; font-style: normal; }''
       @ [nl]
     @ ''        .references .bracket-content em { font-style: italic; font-weight: normal; }''
       @ [nl]
     @ ''        .references p { font-weight: normal; }'' @ [nl]
     @ ''        .references span { font-weight: normal; }'' @ [nl]
     @ ''        .references { font-weight: normal; }'' @ [nl]
     @ ''    </style>'' @ [nl]
     @ ''    '' @ body @ [nl]
     @ ''</div>''"

definition wrap_reference_paragraph :: "string \<Rightarrow> string" where
  "wrap_reference_paragraph p =
     (if strip p \<noteq> [] \<and> \<not> prefix ''<h'' (strip p) then ''<p>'' @ p @ ''</p>'' else p)"

definition process_references :: "string \<Rightarrow> string" where
  "process_references references_section =
     (let r = references_section;
          r = sub_heading 1 r;
          r = sub_heading 2 r;
          r = sub_heading 3 r;
          r = re_sub m_citation citation_number_repl None r;
          r = re_sub m_bracket_text bracket_text_repl None r;
          r = re_sub m_paren (\<lambda>g. ''&#40;'' @ g ! 1 @ ''&#41;'') None r;
          r = replace [bsl, CHR ''/''] ''/'' (replace [bsl, CHR ''>''] ''>'' (replace [bsl, CHR ''<''] ''<'' r));
          r = re_sub m_url (\<lambda>g. ''<a href='' @ [dq] @ g ! 1 @ [dq] @ ''>'' @ g ! 1 @ ''</a>'') None r;
          r = join [nl] (map wrap_reference_paragraph (split [nl, nl] r))
      in references_container r)"

section \<open>Restitution and the entry point\<close>

definition escape_backslashes :: "string \<Rightarrow> string" where
  "escape_backslashes content = replace [bsl] [bsl, bsl] content"

definition replacement :: "kind \<Rightarrow> string \<Rightarrow> string" where
  "replacement block_type content =
     (let escaped_content = escape_backslashes content
      in if block_type = Align then ''$$'' @ escaped_content @ ''$$''
         else if block_type = Env then ''$$'' @ escaped_content @ ''$$''
         else if block_type = Display then ''$$'' @ escaped_content @ ''$$''
         else ''$'' @ escaped_content @ ''$'')"

text \<open>\<open>for i, (block_type, content) in enumerate(math_blocks)\<close>, from index \<open>i\<close> on.\<close>

fun restore_from :: "nat \<Rightarrow> (kind \<times> string) list \<Rightarrow> string \<Rightarrow> string" where
  "restore_from i [] text = text"
| "restore_from i ((block_type, content) # blocks) text =
     restore_from (Suc i) blocks
       (replace (placeholder_format i block_type) (replacement block_type content) text)"

definition mathjax_script :: string where
  "mathjax_script =
     [nl] @ ''<script>'' @ [nl]
     @ ''if (window.MathJax) {'' @ [nl]
     @ ''    MathJax.Hub.Queue(['' @ [dq] @ ''Typeset'' @ [dq] @ '', MathJax.Hub]);'' @ [nl]
     @ ''}'' @ [nl]
     @ ''</script>'' @ [nl]"

text \<open>
  The split at the References heading: \<open>re.search\<close>, then \<open>re.split\<close> with \<open>maxsplit = 1\<close>
  and the whole pattern as its group, which returns the text before the match, the
  match and the text after it.
\<close>

definition split_references :: "string \<Rightarrow> string \<times> string option" where
  "split_references markdown_text =
     (case re_search m_references None markdown_text of
        Some (i, n, groups) \<Rightarrow>
          (let parts = [take i markdown_text, take n (drop i markdown_text),
                        drop (i + n) markdown_text]
           in (parts ! 0, Some (parts ! 1 @ parts ! 2)))
      | None \<Rightarrow> (markdown_text, None))"

text \<open>
  The phases of \<open>convert_markdown_to_html\<close> up to the merge of the References section:
  the text before restitution, and the blocks and the flag of the extraction.
\<close>

definition render_with_placeholders :: "string \<Rightarrow> string \<times> conv_state" where
  "render_with_placeholders markdown_text0 =
     (case split_references markdown_text0 of (markdown_text, references_section) \<Rightarrow>
      case extract_math markdown_text init_state of (markdown_text, st) \<Rightarrow>
        (let markdown_text = protect_parens markdown_text;
             markdown_text = process_regular_markdown markdown_text;
             markdown_text = protect_citations markdown_text;
             markdown_text =
               (case references_section of
                  Some r \<Rightarrow> if r \<noteq> [] then markdown_text @ process_references r else markdown_text
                | None \<Rightarrow> markdown_text)
         in (markdown_text, st)))"

definition convert_markdown_to_html :: "string \<Rightarrow> string" where
  "convert_markdown_to_html markdown_text0 =
     (case render_with_placeholders markdown_text0 of (markdown_text, st) \<Rightarrow>
        (let markdown_text = restore_from 0 (math_blocks st) markdown_text
         in if has_math st then markdown_text @ mathjax_script else markdown_text))"

section \<open>Predicates of the statements\<close>

text \<open>
  A text of one line without the characters that start a pattern, which does not look
  like a blockquote line, a list item or a tag, and has no surrounding whitespace.
\<close>

definition plain_text :: "string \<Rightarrow> bool" where
  "plain_text t \<longleftrightarrow>
     t \<noteq> [] \<and> (\<forall>c \<in> set t. c \<notin> set ''$(*[#'' \<and> c \<noteq> nl)
     \<and> \<not> is_space (hd t) \<and> \<not> is_space (last t)
     \<and> \<not> prefix ''>'' t \<and> \<not> prefix ''- '' t \<and> \<not> prefix ''<'' t \<and> \<not> suffix ''>'' t"

text \<open>
  The blockquote tags that one iteration of the line loop appends before the line's own
  content, read off the two branches on \<open>in_blockquote\<close>: \<open>True\<close> stands for the opening
  tag and \<open>False\<close> for the closing tag. \<open>blockquote_tags_run\<close> collects them over a run of
  the loop, with the closing tag that \<open>close_wrappers\<close> appends at the end of the input.
\<close>

definition blockquote_tags :: "render_state \<Rightarrow> string \<Rightarrow> bool list" where
  "blockquote_tags st line =
     (if prefix ''>'' (strip line) then (if in_blockquote st then [] else [True])
      else (if in_blockquote st then [False] else []))"

definition tag_text :: "bool \<Rightarrow> string" where
  "tag_text opening = (if opening then ''<blockquote>'' else ''</blockquote>'')"

fun blockquote_tags_run :: "render_state \<Rightarrow> string list \<Rightarrow> bool list" where
  "blockquote_tags_run st [] = (if in_blockquote st then [False] else [])"
| "blockquote_tags_run st (l # ls) = blockquote_tags st l @ blockquote_tags_run (scan_line st l) ls"

text \<open>
  A sequence of tags is well nested at depth one when each tag changes whether a
  blockquote is open and none is open at the end.
\<close>

fun alternating :: "bool \<Rightarrow> bool list \<Rightarrow> bool" where
  "alternating is_open [] = (\<not> is_open)"
| "alternating is_open (x # xs) = (x = (\<not> is_open) \<and> alternating x xs)"








text \<open>
  The order of C3 as the claim words it, for comparison with the code: after
  extraction both guards, then rendering.
\<close>

definition guards_before_rendering :: "string \<Rightarrow> string" where
  "guards_before_rendering extracted =
     process_regular_markdown (protect_citations (protect_parens extracted))"


section \<open>Texts in which a pattern cannot match\<close>

text \<open>
  A substitution whose pattern matches at no position returns the text as it is, and a
  search finds nothing. Each pattern needs a particular character to start a match.
\<close>

lemma re_sub_id:
  "(\<And>p u. suffix u s \<Longrightarrow> m p u = None) \<Longrightarrow> re_sub m repl prev s = s"
proof (induction s arbitrary: prev)
  case Nil
  show ?case by simp
next
  case (Cons c cs)
  have here: "m prev (c # cs) = None"
    by (rule Cons.prems) simp
  have rest: "re_sub m repl (Some c) cs = cs"
    by (rule Cons.IH) (simp add: Cons.prems suffix_Cons)
  show ?case by (simp add: here rest)
qed

lemma re_sub_st_id:
  "(\<And>p u. suffix u s \<Longrightarrow> m p u = None) \<Longrightarrow> re_sub_st m cb prev s st = (s, st)"
proof (induction s arbitrary: prev)
  case Nil
  show ?case by simp
next
  case (Cons c cs)
  have here: "m prev (c # cs) = None"
    by (rule Cons.prems) simp
  have rest: "re_sub_st m cb (Some c) cs st = (cs, st)"
    by (rule Cons.IH) (simp add: Cons.prems suffix_Cons)
  show ?case by (simp add: here rest)
qed

lemma re_search_none:
  "(\<And>p u. suffix u s \<Longrightarrow> m p u = None) \<Longrightarrow> re_search m prev s = None"
proof (induction s arbitrary: prev)
  case Nil
  show ?case by simp
next
  case (Cons c cs)
  have here: "m prev (c # cs) = None"
    by (rule Cons.prems) simp
  have rest: "re_search m (Some c) cs = None"
    by (rule Cons.IH) (simp add: Cons.prems suffix_Cons)
  show ?case by (simp add: here rest)
qed

lemma suffix_set: "suffix u s \<Longrightarrow> x \<notin> set s \<Longrightarrow> x \<notin> set u"
  by (auto simp: suffix_def)

lemma prefix_hd_in_set: "prefix (x # p) u \<Longrightarrow> x \<in> set u"
  by (auto simp: prefix_def)

lemma m_align_none: "bsl \<notin> set u \<Longrightarrow> m_align p u = None"
  by (auto simp: m_align_def dest: prefix_hd_in_set)

lemma m_env_none: "bsl \<notin> set u \<Longrightarrow> m_env p u = None"
  by (auto simp: m_env_def dest: prefix_hd_in_set)

lemma m_display_none: "CHR ''$'' \<notin> set u \<Longrightarrow> m_display p u = None"
  by (auto simp: m_display_def dest: prefix_hd_in_set)

lemma m_inline_none: "CHR ''$'' \<notin> set u \<Longrightarrow> m_inline p u = None"
  by (auto simp: m_inline_def split: list.splits)

lemma m_paren_none: "CHR ''('' \<notin> set u \<Longrightarrow> m_paren p u = None"
  by (auto simp: m_paren_def split: list.splits)

lemma m_heading_none: "CHR ''#'' \<notin> set u \<Longrightarrow> 0 < level \<Longrightarrow> m_heading level p u = None"
  by (cases level) (auto simp: m_heading_def dest: prefix_hd_in_set)

lemma m_bold_none: "CHR ''*'' \<notin> set u \<Longrightarrow> m_bold p u = None"
  by (auto simp: m_bold_def dest: prefix_hd_in_set)

lemma m_italic_none: "CHR ''*'' \<notin> set u \<Longrightarrow> m_italic p u = None"
  by (auto simp: m_italic_def split: list.splits)

lemma m_link_none: "CHR ''['' \<notin> set u \<Longrightarrow> m_link p u = None"
  by (auto simp: m_link_def split: list.splits)

lemma m_citation_none: "CHR ''['' \<notin> set u \<Longrightarrow> m_citation p u = None"
  by (auto simp: m_citation_def split: list.splits)

lemma m_references_none: "CHR ''#'' \<notin> set u \<Longrightarrow> m_references p u = None"
  by (cases u) (auto simp: m_references_def Let_def)

section \<open>Searching and replacing in a text of a known shape\<close>


lemma replace_id: "old \<noteq> [] \<Longrightarrow> hd old \<notin> set s \<Longrightarrow> replace old new s = s"
proof (induction s)
  case Nil
  show ?case by simp
next
  case (Cons c s)
  then have "\<not> prefix old (c # s)"
    by (cases old) auto
  with Cons show ?case by simp
qed

lemma digit_char_in: "d < 10 \<Longrightarrow> digit_char d \<in> set ''0123456789''"
  unfolding digit_char_def by (rule nth_mem) simp

lemma str_of_nat_digits: "set (str_of_nat n) \<subseteq> set ''0123456789''"
proof (induction n rule: str_of_nat.induct)
  case (1 n)
  show ?case
  proof (cases "n < 10")
    case True
    then show ?thesis
      using digit_char_in [of n] by (subst str_of_nat.simps) simp
  next
    case False
    have "n mod 10 < 10" by simp
    then have "digit_char (n mod 10) \<in> set ''0123456789''"
      by (rule digit_char_in)
    with False 1 show ?thesis
      by (subst str_of_nat.simps) simp
  qed
qed

lemma kind_name_chars: "set (kind_name k) \<subseteq> set ''alignevdspy''"
  by (cases k) simp_all

lemma placeholder_chars:
  "set (placeholder_format i k) \<subseteq> set ''MATH_PLCEODRYalignevdspy'' \<union> set ''0123456789''"
proof -
  have a: "set ''MATH_PLACEHOLDER_'' \<subseteq> set ''MATH_PLCEODRYalignevdspy''" by simp
  have b: "set ''_TYPE_'' \<subseteq> set ''MATH_PLCEODRYalignevdspy''" by simp
  have c: "set (kind_name k) \<subseteq> set ''MATH_PLCEODRYalignevdspy''"
    by (cases k) simp_all
  show ?thesis
    unfolding placeholder_format_def set_append
    using a b c str_of_nat_digits [of i] by blast
qed

lemma placeholder_0: "placeholder_format 0 k = ''MATH_PLACEHOLDER_0_TYPE_'' @ kind_name k"
  by (simp add: placeholder_format_def str_of_nat.simps digit_char_def)



lemma no_references_heading:
  "CHR ''#'' \<notin> set s \<Longrightarrow> split_references s = (s, None)"
proof -
  assume h: "CHR ''#'' \<notin> set s"
  have "re_search m_references None s = None"
    by (rule re_search_none) (rule m_references_none, rule suffix_set [OF _ h])
  then show ?thesis by (simp add: split_references_def)
qed

lemma suffix_not_sublist: "suffix u s \<Longrightarrow> \<not> sublist q s \<Longrightarrow> \<not> sublist q u"
  by (meson sublist_order.order.trans suffix_imp_sublist)

lemma sublist_separator:
  assumes "x \<notin> set p"
  shows "sublist p (u @ x # v) \<longleftrightarrow> sublist p u \<or> sublist p v"
proof
  assume "sublist p (u @ x # v)"
  then consider "sublist p u" | "sublist p (x # v)"
    | xs1 xs2 where "p = xs1 @ xs2" "suffix xs1 u" "prefix xs2 (x # v)"
    by (auto simp: sublist_append)
  then show "sublist p u \<or> sublist p v"
  proof cases
    case 1
    then show ?thesis by simp
  next
    case 2
    then have "prefix p (x # v) \<or> sublist p v"
      by (simp add: sublist_Cons_right)
    moreover have "prefix p (x # v) \<Longrightarrow> p = []"
      using assms by (cases p) auto
    ultimately show ?thesis by auto
  next
    case 3
    have "xs2 = []"
      using 3(1,3) assms by (cases xs2) auto
    with 3 show ?thesis by auto
  qed
next
  assume "sublist p u \<or> sublist p v"
  then show "sublist p (u @ x # v)"
    by (metis sublist_append sublist_Cons_right)
qed

text \<open>A pattern whose first character does not occur again in it cannot straddle.\<close>

lemma no_straddle:
  assumes "x \<notin> set p'" and "\<not> sublist (x # p') b" and "\<not> sublist (x # p') e"
    and "e \<noteq> [] \<Longrightarrow> hd e = x"
  shows "\<not> sublist (x # p') (b @ e)"
proof
  assume "sublist (x # p') (b @ e)"
  then obtain xs1 xs2 where s: "x # p' = xs1 @ xs2" "suffix xs1 b" "prefix xs2 e"
    using assms(2,3) by (auto simp: sublist_append)
  have n1: "xs1 \<noteq> []"
    using s assms(3) by auto
  have n2: "xs2 \<noteq> []"
    using s assms(2) by auto
  from n2 s(3) have "e \<noteq> []" and "hd xs2 = hd e"
    by (auto simp: prefix_def)
  with assms(4) have "hd xs2 = x" by simp
  with n2 have "x \<in> set xs2"
    by (cases xs2) auto
  moreover from n1 s(1) have "set xs2 \<subseteq> set p'"
    by (cases xs1) auto
  ultimately show False using assms(1) by auto
qed

lemma find_str_first:
  assumes "x \<notin> set p'"
  shows "\<not> sublist (x # p') b \<Longrightarrow> find_str (x # p') (b @ (x # p') @ r) = Some (length b)"
proof (induction b)
  case Nil
  show ?case by simp
next
  case (Cons c b)
  have nb: "\<not> sublist (x # p') b"
    using Cons.prems by (simp add: sublist_Cons_right)
  have "\<not> prefix (x # p') ((c # b) @ (x # p') @ r)"
  proof
    assume "prefix (x # p') ((c # b) @ (x # p') @ r)"
    then obtain us where us: "x # p' = (c # b) @ us" "prefix us ((x # p') @ r)"
      using Cons.prems by (auto simp: prefix_append)
    have "us \<noteq> []"
      using us(1) Cons.prems by auto
    with us(2) have "hd us = x"
      by (cases us) auto
    with \<open>us \<noteq> []\<close> have "x \<in> set us"
      by (cases us) auto
    with us(1) assms show False by auto
  qed
  then show ?case
    using Cons.IH [OF nb] by simp
qed

lemma replace_absent: "\<not> sublist old s \<Longrightarrow> replace old new s = s"
proof (induction s)
  case Nil
  show ?case by simp
next
  case (Cons c s)
  then have "\<not> prefix old (c # s)" and "\<not> sublist old s"
    by (auto simp: sublist_Cons_right)
  with Cons.IH show ?case by simp
qed

lemma replace_first:
  assumes "x \<notin> set p'"
  shows "\<not> sublist (x # p') b \<Longrightarrow>
         replace (x # p') new (b @ (x # p') @ r) = b @ new @ replace (x # p') new r"
proof (induction b)
  case Nil
  show ?case by simp
next
  case (Cons c b)
  have nb: "\<not> sublist (x # p') b"
    using Cons.prems by (simp add: sublist_Cons_right)
  have "\<not> prefix (x # p') ((c # b) @ (x # p') @ r)"
  proof
    assume "prefix (x # p') ((c # b) @ (x # p') @ r)"
    then obtain us where us: "x # p' = (c # b) @ us" "prefix us ((x # p') @ r)"
      using Cons.prems by (auto simp: prefix_append)
    have "us \<noteq> []"
      using us(1) Cons.prems by auto
    with us(2) have "hd us = x"
      by (cases us) auto
    with \<open>us \<noteq> []\<close> have "x \<in> set us"
      by (cases us) auto
    with us(1) assms show False by auto
  qed
  then have "replace (x # p') new ((c # b) @ (x # p') @ r) =
             c # replace (x # p') new (b @ (x # p') @ r)"
    by (simp del: Cons_prefix_Cons)
  then show ?case
    using Cons.IH [OF nb] by simp
qed

text \<open>Doubling the backslashes, character by character.\<close>

lemma escape_backslashes_map:
  "escape_backslashes s = concat (map (\<lambda>c. if c = bsl then [bsl, bsl] else [c]) s)"
  unfolding escape_backslashes_def by (induction s) auto

lemma escape_backslashes_append:
  "escape_backslashes (u @ v) = escape_backslashes u @ escape_backslashes v"
  by (simp add: escape_backslashes_map)

section \<open>Texts that pass through unchanged\<close>

lemma m_align_none_begin: "\<not> sublist (bsl # ''begin{'') u \<Longrightarrow> m_align p u = None"
proof -
  assume h: "\<not> sublist (bsl # ''begin{'') u"
  have "prefix (bsl # ''begin{align}'') u \<Longrightarrow> prefix (bsl # ''begin{'') u"
    by (auto simp: prefix_def)
  with h show ?thesis
    by (auto simp: m_align_def)
qed

lemma m_env_none_begin: "\<not> sublist (bsl # ''begin{'') u \<Longrightarrow> m_env p u = None"
  by (auto simp: m_env_def)

lemma no_env_in_text:
  assumes "\<not> sublist (bsl # ''begin{'') s"
  shows "re_sub_st m_align extract_align_env prev s st = (s, st)"
    and "re_sub_st m_env extract_other_env prev s st = (s, st)"
proof -
  show "re_sub_st m_align extract_align_env prev s st = (s, st)"
    by (rule re_sub_st_id) (rule m_align_none_begin, rule suffix_not_sublist [OF _ assms])
  show "re_sub_st m_env extract_other_env prev s st = (s, st)"
    by (rule re_sub_st_id) (rule m_env_none_begin, rule suffix_not_sublist [OF _ assms])
qed

lemma placeholder_no_markup:
  "c \<in> set ''$()*[]#<>- '' \<or> c = bsl \<or> c = nl \<Longrightarrow> c \<notin> set (placeholder_format i k)"
  using placeholder_chars [of i k] by auto



lemma strip_id: "t \<noteq> [] \<Longrightarrow> \<not> is_space (hd t) \<Longrightarrow> \<not> is_space (last t) \<Longrightarrow> strip t = t"
proof -
  assume h: "t \<noteq> []" "\<not> is_space (hd t)" "\<not> is_space (last t)"
  then have a: "dropWhile is_space t = t"
    by (cases t) auto
  from h have "dropWhile is_space (rev t) = rev t"
    by (cases "rev t") (auto simp: hd_rev)
  with a show ?thesis by (simp add: strip_def)
qed

lemma split_acc_single:
  "sep \<noteq> [] \<Longrightarrow> hd sep \<notin> set s \<Longrightarrow> split_acc sep acc s = [acc @ s]"
proof (induction s arbitrary: acc)
  case Nil
  show ?case by simp
next
  case (Cons c s)
  then have "\<not> prefix sep (c # s)"
    by (cases sep) auto
  with Cons show ?case by simp
qed

lemma split_single: "sep \<noteq> [] \<Longrightarrow> hd sep \<notin> set s \<Longrightarrow> split sep s = [s]"
  by (simp add: split_def split_acc_single)

lemma plain_text_strip: "plain_text t \<Longrightarrow> strip t = t"
  by (simp add: plain_text_def strip_id)

lemma plain_text_no_char:
  "plain_text t \<Longrightarrow> c \<in> set ''$(*[#'' \<or> c = nl \<Longrightarrow> c \<notin> set t"
  unfolding plain_text_def by blast

lemma plain_text_headings:
  assumes "plain_text t" and "0 < level"
  shows "sub_heading level t = t"
proof -
  have h: "CHR ''#'' \<notin> set t"
    using assms(1) by (intro plain_text_no_char) simp_all
  show ?thesis
    unfolding sub_heading_def
    by (rule re_sub_id) (rule m_heading_none [OF suffix_set [OF _ h] assms(2)])
qed

lemma plain_text_lines:
  assumes "plain_text t"
  shows "join [nl] (close_wrappers (scan_lines (split [nl] t))) = t"
proof -
  have n: "nl \<notin> set t"
    using assms by (intro plain_text_no_char) simp_all
  have s: "split [nl] t = [t]"
    using n by (intro split_single) simp_all
  have "scan_lines [t] = \<lparr>in_list = False, in_blockquote = False, result = [t]\<rparr>"
    using assms
    by (simp add: scan_lines_def scan_line_def init_render_def plain_text_strip plain_text_def)
  then show ?thesis
    by (simp add: s close_wrappers_def)
qed

lemma plain_text_inline:
  assumes "plain_text t"
  shows "sub_bold t = t" and "sub_italic t = t" and "sub_link t = t"
proof -
  have a: "CHR ''*'' \<notin> set t"
    using assms by (intro plain_text_no_char) simp_all
  have b: "CHR ''['' \<notin> set t"
    using assms by (intro plain_text_no_char) simp_all
  show "sub_bold t = t"
    unfolding sub_bold_def by (rule re_sub_id) (rule m_bold_none [OF suffix_set [OF _ a]])
  show "sub_italic t = t"
    unfolding sub_italic_def by (rule re_sub_id) (rule m_italic_none [OF suffix_set [OF _ a]])
  show "sub_link t = t"
    unfolding sub_link_def by (rule re_sub_id) (rule m_link_none [OF suffix_set [OF _ b]])
qed

lemma plain_text_paragraph:
  assumes "plain_text t"
  shows "join [nl] (map wrap_paragraph (split [nl, nl] t)) = ''<p>'' @ t @ ''</p>''"
proof -
  have n: "nl \<notin> set t"
    using assms by (intro plain_text_no_char) simp_all
  have s: "split [nl, nl] t = [t]"
    using n by (intro split_single) simp_all
  have "wrap_paragraph t = ''<p>'' @ t @ ''</p>''"
    using assms by (simp add: wrap_paragraph_def plain_text_strip plain_text_def)
  then show ?thesis by (simp add: s)
qed

lemma plain_text_rendered:
  assumes "plain_text t"
  shows "process_regular_markdown t = ''<p>'' @ t @ ''</p>''"
  by (simp only: process_regular_markdown_def Let_def plain_text_headings [OF assms]
        plain_text_lines [OF assms] plain_text_inline [OF assms] plain_text_paragraph [OF assms]
        zero_less_numeral zero_less_one)

lemma plain_text_parens: "plain_text t \<Longrightarrow> protect_parens t = t"
proof -
  assume "plain_text t"
  then have a: "CHR ''('' \<notin> set t"
    by (intro plain_text_no_char) simp_all
  show ?thesis
    unfolding protect_parens_def by (rule re_sub_id) (rule m_paren_none [OF suffix_set [OF _ a]])
qed

lemma plain_text_citations:
  "plain_text t \<Longrightarrow> protect_citations (''<p>'' @ t @ ''</p>'') = ''<p>'' @ t @ ''</p>''"
proof -
  assume "plain_text t"
  then have "CHR ''['' \<notin> set t"
    by (intro plain_text_no_char) simp_all
  then have a: "CHR ''['' \<notin> set (''<p>'' @ t @ ''</p>'')"
    by simp
  show ?thesis
    unfolding protect_citations_def
    by (rule re_sub_id) (rule m_citation_none [OF suffix_set [OF _ a]])
qed


lemma plain_text_no_dollar_math:
  assumes "plain_text t"
  shows "re_sub_st m_display extract_display_math prev t st = (t, st)"
    and "re_sub_st m_inline extract_inline_math prev t st = (t, st)"
proof -
  have a: "CHR ''$'' \<notin> set t"
    using assms by (intro plain_text_no_char) simp_all
  show "re_sub_st m_display extract_display_math prev t st = (t, st)"
    by (rule re_sub_st_id) (rule m_display_none [OF suffix_set [OF _ a]])
  show "re_sub_st m_inline extract_inline_math prev t st = (t, st)"
    by (rule re_sub_st_id) (rule m_inline_none [OF suffix_set [OF _ a]])
qed

section \<open>Environments without an end\<close>




section \<open>A text that is one math span\<close>

lemma placeholder_Cons:
  "placeholder_format i k = CHR ''M'' # (''ATH_PLACEHOLDER_'' @ str_of_nat i @ ''_TYPE_'' @ kind_name k)"
  by (simp add: placeholder_format_def)

lemma placeholder_tail_no_M:
  "CHR ''M'' \<notin> set (''ATH_PLACEHOLDER_'' @ str_of_nat i @ ''_TYPE_'' @ kind_name k)"
  using str_of_nat_digits [of i] by (cases k) auto

lemma placeholder_last: "last (placeholder_format i k) = last (kind_name k)"
  by (cases k) (simp_all add: placeholder_format_def)

lemma plain_text_placeholder: "plain_text (placeholder_format i k)"
proof -
  have a: "\<forall>c \<in> set (placeholder_format i k). c \<notin> set ''$(*[#'' \<and> c \<noteq> nl"
    using placeholder_chars [of i k] by auto
  have b: "hd (placeholder_format i k) = CHR ''M''"
    by (simp add: placeholder_Cons)
  have c: "last (placeholder_format i k) \<in> set ''nvye''"
    unfolding placeholder_last by (cases k) simp_all
  have d: "\<not> suffix ''>'' (placeholder_format i k)"
  proof
    assume "suffix ''>'' (placeholder_format i k)"
    then have "last (placeholder_format i k) = CHR ''>''"
      by (auto simp: suffix_def)
    with c show False by simp
  qed
  have e: "\<not> is_space (last (placeholder_format i k))"
    using c by (auto simp: is_space_def)
  show ?thesis
    unfolding plain_text_def using a d e
    by (simp add: placeholder_Cons [symmetric] b is_space_def) (simp add: placeholder_Cons)
qed

lemma restore_single:
  "restore_from 0 [(k, c)] (''<p>'' @ placeholder_format 0 k @ ''</p>'')
   = ''<p>'' @ replacement k c @ ''</p>''"
proof -
  let ?tl = "''ATH_PLACEHOLDER_'' @ str_of_nat 0 @ ''_TYPE_'' @ kind_name k"
  have n: "\<not> sublist (CHR ''M'' # ?tl) ''<p>''"
    by (simp add: sublist_Cons_right)
  have "replace (CHR ''M'' # ?tl) (replacement k c) (''<p>'' @ (CHR ''M'' # ?tl) @ ''</p>'')
        = ''<p>'' @ replacement k c @ replace (CHR ''M'' # ?tl) (replacement k c) ''</p>''"
    by (rule replace_first [OF placeholder_tail_no_M n])
  moreover have "replace (CHR ''M'' # ?tl) (replacement k c) ''</p>'' = ''</p>''"
    by (rule replace_id) simp_all
  ultimately show ?thesis
    by (simp add: placeholder_Cons)
qed

text \<open>What follows the extraction when the text has become one placeholder.\<close>

lemma single_block_output:
  assumes "split_references t = (t, None)"
    and "extract_math t init_state =
         (placeholder_format 0 k, \<lparr>math_blocks = [(k, c)], has_math = True\<rparr>)"
  shows "convert_markdown_to_html t = ''<p>'' @ replacement k c @ ''</p>'' @ mathjax_script"
proof -
  note p = plain_text_placeholder [of 0 k]
  have "render_with_placeholders t =
        (''<p>'' @ placeholder_format 0 k @ ''</p>'', \<lparr>math_blocks = [(k, c)], has_math = True\<rparr>)"
    by (simp only: render_with_placeholders_def assms plain_text_parens [OF p]
          plain_text_rendered [OF p] plain_text_citations [OF p] prod.case option.case Let_def)
  then have "convert_markdown_to_html t =
        restore_from 0 [(k, c)] (''<p>'' @ placeholder_format 0 k @ ''</p>'') @ mathjax_script"
    by (simp only: convert_markdown_to_html_def prod.case Let_def conv_state.select_convs if_True)
  then show ?thesis
    by (simp only: restore_single append_assoc)
qed

lemma after_extraction_placeholder:
  "re_sub_st m_env extract_other_env prev (placeholder_format i k) st = (placeholder_format i k, st)"
  "re_sub_st m_display extract_display_math prev (placeholder_format i k) st = (placeholder_format i k, st)"
  "re_sub_st m_inline extract_inline_math prev (placeholder_format i k) st = (placeholder_format i k, st)"
proof -
  have b: "bsl \<notin> set (placeholder_format i k)"
    by (rule placeholder_no_markup) simp
  show "re_sub_st m_env extract_other_env prev (placeholder_format i k) st = (placeholder_format i k, st)"
    by (rule re_sub_st_id) (rule m_env_none [OF suffix_set [OF _ b]])
  show "re_sub_st m_display extract_display_math prev (placeholder_format i k) st = (placeholder_format i k, st)"
    by (rule plain_text_no_dollar_math [OF plain_text_placeholder])
  show "re_sub_st m_inline extract_inline_math prev (placeholder_format i k) st = (placeholder_format i k, st)"
    by (rule plain_text_no_dollar_math [OF plain_text_placeholder])
qed



lemma align_pass_single:
  assumes "\<not> sublist (bsl # ''end{align}'') b"
  shows "re_sub_st m_align extract_align_env None (bsl # ''begin{align}'' @ b @ bsl # ''end{align}'') st =
         (placeholder_format (length (math_blocks st)) Align,
          st\<lparr>has_math := True,
             math_blocks := math_blocks st @
               [(Align, replace (bsl # ''end{align}'') (bsl # ''end{align*}'')
                          (replace (bsl # ''begin{align}'') (bsl # ''begin{align*}'')
                             (bsl # ''begin{align}'' @ b @ bsl # ''end{align}'')))]\<rparr>)"
proof -
  have f: "find_str (bsl # ''end{align}'') (b @ bsl # ''end{align}'') = Some (length b)"
    using find_str_first [of bsl "''end{align}''" b "[]"] assms by simp
  have m: "m_align None (bsl # ''begin{align}'' @ b @ bsl # ''end{align}'') =
           Some (13 + length b + 11,
                 [bsl # ''begin{align}'' @ b @ bsl # ''end{align}'', b])"
    by (simp add: m_align_def f)
  show ?thesis
    using m by (simp add: extract_align_env_def Let_def)
qed

lemma align_stored_content:
  assumes "\<not> sublist (bsl # ''end{align}'') b" and "\<not> sublist (bsl # ''begin{align}'') b"
  shows "replace (bsl # ''end{align}'') (bsl # ''end{align*}'')
           (replace (bsl # ''begin{align}'') (bsl # ''begin{align*}'')
              (bsl # ''begin{align}'' @ b @ bsl # ''end{align}''))
         = bsl # ''begin{align*}'' @ b @ bsl # ''end{align*}''"
proof -
  have "\<not> sublist (bsl # ''begin{align}'') (bsl # ''end{align}'')"
    by code_simp
  then have "\<not> sublist (bsl # ''begin{align}'') (b @ bsl # ''end{align}'')"
    using no_straddle [of bsl "''begin{align}''" b "bsl # ''end{align}''"] assms(2) by simp
  then have a: "replace (bsl # ''begin{align}'') (bsl # ''begin{align*}'') (b @ bsl # ''end{align}'')
             = b @ bsl # ''end{align}''"
    by (rule replace_absent)
  have b: "replace (bsl # ''end{align}'') (bsl # ''end{align*}'') (b @ bsl # ''end{align}'')
           = b @ bsl # ''end{align*}''"
    using replace_first [of bsl "''end{align}''" b "bsl # ''end{align*}''" "[]"] assms(1) by simp
  show ?thesis
    by (simp add: a b)
qed

lemma align_extracted:
  assumes "\<not> sublist (bsl # ''end{align}'') b" and "\<not> sublist (bsl # ''begin{align}'') b"
  shows "extract_math (bsl # ''begin{align}'' @ b @ bsl # ''end{align}'') init_state =
           (placeholder_format 0 Align,
            \<lparr>math_blocks = [(Align, bsl # ''begin{align*}'' @ b @ bsl # ''end{align*}'')],
             has_math = True\<rparr>)"
  using align_pass_single [OF assms(1), of init_state]
  by (simp only: extract_math_def after_extraction_placeholder prod.case
        align_stored_content [OF assms(1,2)])
     (simp add: init_state_def)

lemma align_roundtrip:
  assumes "\<not> sublist (bsl # ''end{align}'') b" and "\<not> sublist (bsl # ''begin{align}'') b"
    and "CHR ''#'' \<notin> set b"
  shows "convert_markdown_to_html (bsl # ''begin{align}'' @ b @ bsl # ''end{align}'')
         = ''<p>$$'' @ [bsl, bsl] @ ''begin{align*}'' @ escape_backslashes b
           @ [bsl, bsl] @ ''end{align*}$$</p>'' @ mathjax_script"
proof -
  let ?t = "bsl # ''begin{align}'' @ b @ bsl # ''end{align}''"
  have s: "split_references ?t = (?t, None)"
    using assms(3) by (intro no_references_heading) simp
  have "escape_backslashes (bsl # ''begin{align*}'' @ b @ bsl # ''end{align*}'')
        = [bsl, bsl] @ ''begin{align*}'' @ escape_backslashes b @ [bsl, bsl] @ ''end{align*}''"
    by (simp add: escape_backslashes_map)
  then show ?thesis
    using single_block_output [OF s align_extracted [OF assms(1,2)]] by (simp add: replacement_def)
qed

lemma restore_from_snoc:
  "restore_from i (blocks @ [(k, c)]) t =
   replace (placeholder_format (i + length blocks) k) (replacement k c) (restore_from i blocks t)"
  by (induction blocks arbitrary: i t) auto

section \<open>Blockquote lines\<close>

lemma lstrip_gt_no_marker: "\<not> prefix ''>'' (lstrip_gt s)"
proof
  assume "prefix ''>'' (lstrip_gt s)"
  then have "lstrip_gt s \<noteq> []" and "hd (lstrip_gt s) = CHR ''>''"
    by (auto simp: prefix_def)
  then show False
    unfolding lstrip_gt_def using hd_dropWhile [of "\<lambda>c. c = CHR ''>''" s] by simp
qed

lemma strip_trimmed: "strip s = [] \<or> \<not> is_space (hd (strip s)) \<and> \<not> is_space (last (strip s))"
proof (cases "strip s = []")
  case True
  then show ?thesis by simp
next
  case False
  let ?y = "dropWhile is_space s"
  let ?x = "dropWhile is_space (rev ?y)"
  have sx: "strip s = rev ?x" by (simp add: strip_def)
  with False have xn: "?x \<noteq> []" by simp
  have yn: "?y \<noteq> []"
  proof
    assume e: "?y = []"
    have "?x = []" unfolding e by simp
    with xn show False by (simp only: not_True_eq_False)
  qed
  have "last (strip s) = hd ?x"
    using xn by (simp add: sx last_rev)
  moreover have "\<not> is_space (hd ?x)"
    using xn by (rule hd_dropWhile)
  moreover have "hd (strip s) = last ?x"
    using xn by (simp add: sx hd_rev)
  moreover have "last ?x = last (rev ?y)"
    using xn by (metis append_Nil2 last_appendR takeWhile_dropWhile_id)
  moreover have "last (rev ?y) = hd ?y"
    using yn by (simp add: last_rev)
  moreover have "\<not> is_space (hd ?y)"
    using yn by (rule hd_dropWhile)
  ultimately show ?thesis by simp
qed

lemma blockquote_line_step:
  assumes "prefix ''>'' (strip line)"
  shows "result (scan_line st line) =
           result st @ (if in_blockquote st then [] else [''<blockquote>''])
           @ [strip (lstrip_gt (strip line))]"
    and "in_blockquote (scan_line st line)"
    and "in_list (scan_line st line) = in_list st"
  using assms by (simp_all add: scan_line_def)

lemma blockquote_run:
  assumes "\<forall>l \<in> set ls. prefix ''>'' (strip l)" and "ls \<noteq> []"
  shows "result (foldl scan_line st ls) =
           result st @ (if in_blockquote st then [] else [''<blockquote>''])
           @ map (\<lambda>l. strip (lstrip_gt (strip l))) ls
         \<and> in_blockquote (foldl scan_line st ls)
         \<and> in_list (foldl scan_line st ls) = in_list st"
  using assms
proof (induction ls arbitrary: st)
  case Nil
  then show ?case by simp
next
  case (Cons l ls)
  have l: "prefix ''>'' (strip l)"
    using Cons.prems by simp
  show ?case
  proof (cases "ls = []")
    case True
    then show ?thesis
      using blockquote_line_step [OF l, of st] by simp
  next
    case False
    have "\<forall>l \<in> set ls. prefix ''>'' (strip l)"
      using Cons.prems by simp
    from Cons.IH [OF this False, of "scan_line st l"] show ?thesis
      using blockquote_line_step [OF l, of st] by simp
  qed
qed

lemma blockquote_only_text:
  assumes "\<forall>l \<in> set ls. prefix ''>'' (strip l)" and "ls \<noteq> []"
  shows "close_wrappers (scan_lines ls) =
         ''<blockquote>'' # map (\<lambda>l. strip (lstrip_gt (strip l))) ls @ [''</blockquote>'']"
  using blockquote_run [OF assms, of init_render]
  by (simp add: scan_lines_def close_wrappers_def init_render_def)

lemma blockquote_tags_first:
  "prefix (result st @ map tag_text (blockquote_tags st line)) (result (scan_line st line))"
  by (simp add: scan_line_def blockquote_tags_def tag_text_def Let_def)

lemma in_blockquote_step: "in_blockquote (scan_line st line) = prefix ''>'' (strip line)"
  by (simp add: scan_line_def Let_def)

lemma blockquote_tags_alternate: "alternating (in_blockquote st) (blockquote_tags_run st ls)"
proof (induction ls arbitrary: st)
  case Nil
  show ?case by simp
next
  case (Cons l ls)
  show ?case
    using Cons.IH [of "scan_line st l"]
    by (cases "prefix ''>'' (strip l)"; cases "in_blockquote st")
       (simp_all add: blockquote_tags_def in_blockquote_step)
qed

section \<open>The flag and the blocks\<close>





section \<open>One line of text\<close>

lemma lazy_plus_none: "(\<And>u. suffix u s \<Longrightarrow> cont u = None) \<Longrightarrow> lazy_plus cont s = None"
proof (induction s)
  case Nil
  show ?case by simp
next
  case (Cons c cs)
  have "cont cs = None"
    by (rule Cons.prems) (simp add: suffix_Cons)
  moreover have "lazy_plus cont cs = None"
    by (rule Cons.IH) (simp add: Cons.prems suffix_Cons)
  ultimately show ?case by simp
qed

lemma m_link_none_paren: "CHR ''('' \<notin> set u \<Longrightarrow> m_link p u = None"
proof (cases u)
  case Nil
  then show ?thesis by (simp add: m_link_def)
next
  case (Cons c r)
  assume h: "CHR ''('' \<notin> set u"
  have "lazy_plus
          (\<lambda>t. if prefix '']('' t
               then map_option fst
                      (lazy_plus (\<lambda>u. if prefix '')'' u then Some () else None) (drop 2 t))
               else None) r = None"
  proof (rule lazy_plus_none)
    fix v
    assume "suffix v r"
    then have "CHR ''('' \<notin> set v"
      using h Cons by (auto simp: suffix_def)
    then have "\<not> prefix '']('' v"
      by (auto simp: prefix_def)
    then show "(if prefix '']('' v
               then map_option fst
                      (lazy_plus (\<lambda>u. if prefix '')'' u then Some () else None) (drop 2 v))
               else None) = None"
      by simp
  qed
  then show ?thesis
    using Cons by (simp add: m_link_def)
qed

lemma headings_absent: "CHR ''#'' \<notin> set t \<Longrightarrow> 0 < level \<Longrightarrow> sub_heading level t = t"
  unfolding sub_heading_def
  by (rule re_sub_id) (rule m_heading_none, erule (1) suffix_set)

lemma one_line_scanned:
  assumes "nl \<notin> set t" and "strip t = t" and "\<not> prefix ''>'' t" and "\<not> prefix ''- '' t"
  shows "join [nl] (close_wrappers (scan_lines (split [nl] t))) = t"
proof -
  have s: "split [nl] t = [t]"
    using assms(1) by (intro split_single) simp_all
  have "scan_lines [t] = \<lparr>in_list = False, in_blockquote = False, result = [t]\<rparr>"
    using assms by (simp add: scan_lines_def scan_line_def init_render_def)
  then show ?thesis
    by (simp add: s close_wrappers_def)
qed

lemma emphasis_absent:
  assumes "CHR ''*'' \<notin> set t"
  shows "sub_bold t = t" and "sub_italic t = t"
proof -
  show "sub_bold t = t"
    unfolding sub_bold_def by (rule re_sub_id) (rule m_bold_none [OF suffix_set [OF _ assms]])
  show "sub_italic t = t"
    unfolding sub_italic_def by (rule re_sub_id) (rule m_italic_none [OF suffix_set [OF _ assms]])
qed

lemma links_absent: "CHR ''['' \<notin> set t \<or> CHR ''('' \<notin> set t \<Longrightarrow> sub_link t = t"
proof (erule disjE)
  assume a: "CHR ''['' \<notin> set t"
  show ?thesis
    unfolding sub_link_def by (rule re_sub_id) (rule m_link_none [OF suffix_set [OF _ a]])
next
  assume a: "CHR ''('' \<notin> set t"
  show ?thesis
    unfolding sub_link_def by (rule re_sub_id) (rule m_link_none_paren [OF suffix_set [OF _ a]])
qed

lemma paragraphs_of_line:
  assumes "nl \<notin> set t"
  shows "join [nl] (map wrap_paragraph (split [nl, nl] t)) = wrap_paragraph t"
proof -
  have "split [nl, nl] t = [t]"
    using assms by (intro split_single) simp_all
  then show ?thesis by simp
qed

text \<open>One line without headings, emphasis or links: only the paragraph rule applies.\<close>

lemma line_rendered:
  assumes "nl \<notin> set t" and "CHR ''#'' \<notin> set t" and "CHR ''*'' \<notin> set t"
    and "CHR ''['' \<notin> set t \<or> CHR ''('' \<notin> set t"
    and "strip t = t" and "\<not> prefix ''>'' t" and "\<not> prefix ''- '' t"
  shows "process_regular_markdown t = wrap_paragraph t"
  by (simp only: process_regular_markdown_def Let_def headings_absent [OF assms(2)]
        one_line_scanned [OF assms(1,5,6,7)] emphasis_absent [OF assms(3)]
        links_absent [OF assms(4)] paragraphs_of_line [OF assms(1)]
        zero_less_numeral zero_less_one)

lemma parens_absent: "CHR ''('' \<notin> set t \<Longrightarrow> protect_parens t = t"
  unfolding protect_parens_def
  by (rule re_sub_id) (rule m_paren_none, erule (1) suffix_set)

lemma citations_absent: "CHR ''['' \<notin> set t \<Longrightarrow> protect_citations t = t"
  unfolding protect_citations_def
  by (rule re_sub_id) (rule m_citation_none, erule (1) suffix_set)

lemma no_math_in_text:
  assumes "bsl \<notin> set t" and "CHR ''$'' \<notin> set t"
  shows "extract_math t st = (t, st)"
proof -
  have 1: "re_sub_st m_align extract_align_env None t st = (t, st)"
    by (rule re_sub_st_id) (rule m_align_none [OF suffix_set [OF _ assms(1)]])
  have 2: "re_sub_st m_env extract_other_env None t st = (t, st)"
    by (rule re_sub_st_id) (rule m_env_none [OF suffix_set [OF _ assms(1)]])
  have 3: "re_sub_st m_display extract_display_math None t st = (t, st)"
    by (rule re_sub_st_id) (rule m_display_none [OF suffix_set [OF _ assms(2)]])
  have 4: "re_sub_st m_inline extract_inline_math None t st = (t, st)"
    by (rule re_sub_st_id) (rule m_inline_none [OF suffix_set [OF _ assms(2)]])
  show ?thesis
    by (simp only: extract_math_def 1 2 3 4 prod.case)
qed

text \<open>The converter on a text without math and without a References heading.\<close>

lemma convert_without_math:
  assumes "bsl \<notin> set t" and "CHR ''$'' \<notin> set t" and "CHR ''#'' \<notin> set t"
  shows "convert_markdown_to_html t =
         protect_citations (process_regular_markdown (protect_parens t))"
proof -
  have "render_with_placeholders t =
        (protect_citations (process_regular_markdown (protect_parens t)), init_state)"
    by (simp only: render_with_placeholders_def no_references_heading [OF assms(3)]
          no_math_in_text [OF assms(1,2)] prod.case option.case Let_def)
  then show ?thesis
    by (simp add: convert_markdown_to_html_def init_state_def)
qed

section \<open>The order of the phases\<close>

lemma re_search_index: "re_search m prev s = Some (i, r) \<Longrightarrow> i < length s"
proof (induction s arbitrary: prev i)
  case Nil
  then show ?case by simp
next
  case (Cons c cs)
  show ?case
  proof (cases "m prev (c # cs)")
    case None
    with Cons.prems obtain j where "re_search m (Some c) cs = Some (j, r)" and "i = Suc j"
      by auto
    with Cons.IH show ?thesis by auto
  next
    case (Some a)
    with Cons.prems show ?thesis
      by (auto split: prod.splits)
  qed
qed

lemma references_section_not_empty:
  "split_references t = (main, Some r) \<Longrightarrow> main @ r = t \<and> r \<noteq> []"
proof -
  assume a: "split_references t = (main, Some r)"
  then obtain i n g where s: "re_search m_references None t = Some (i, n, g)"
    by (auto simp: split_references_def split: option.splits)
  then have "i < length t"
    by (rule re_search_index)
  moreover have "main = take i t" and "r = take n (drop i t) @ drop (i + n) t"
    using a s by (simp_all add: split_references_def)
  moreover have "take n (drop i t) @ drop (i + n) t = drop i t"
    by (metis add.commute append_take_drop_id drop_drop)
  ultimately show ?thesis by simp
qed

lemma render_with_placeholders_order:
  "render_with_placeholders t =
     (case split_references t of (main, refs) \<Rightarrow>
      case extract_math main init_state of (extracted, st) \<Rightarrow>
        (protect_citations (process_regular_markdown (protect_parens extracted))
           @ (case refs of None \<Rightarrow> [] | Some r \<Rightarrow> process_references r), st))"
proof (cases "split_references t")
  case (Pair main refs)
  show ?thesis
  proof (cases refs)
    case None
    with Pair show ?thesis
      by (simp add: render_with_placeholders_def Let_def split: prod.splits)
  next
    case (Some r)
    with Pair have "r \<noteq> []"
      using references_section_not_empty [of t main r] by simp
    with Pair Some show ?thesis
      by (simp add: render_with_placeholders_def Let_def split: prod.splits)
  qed
qed

lemma inline_pass_single:
  assumes "b \<noteq> []" and "CHR ''$'' \<notin> set b" and "nl \<notin> set b"
  shows "re_sub_st m_inline extract_inline_math None (''$'' @ b @ ''$'') st =
         (placeholder_format (length (math_blocks st)) Inline,
          st\<lparr>has_math := True, math_blocks := math_blocks st @ [(Inline, b)]\<rparr>)"
proof -
  have t: "takeWhile (\<lambda>x. x \<noteq> CHR ''$'' \<and> x \<noteq> nl) (b @ ''$'') = b"
    using assms(2,3) by (subst takeWhile_append2) auto
  have m: "m_inline None (''$'' @ b @ ''$'') = Some (length b + 2, [''$'' @ b @ ''$'', b])"
    using assms(1) by (simp add: m_inline_def t)
  show ?thesis
    using m by (simp add: extract_inline_math_def)
qed

lemma inline_roundtrip:
  assumes "b \<noteq> []" and "CHR ''$'' \<notin> set b" and "nl \<notin> set b"
    and "\<not> sublist (bsl # ''begin{'') b" and "CHR ''#'' \<notin> set b"
  shows "convert_markdown_to_html (''$'' @ b @ ''$'')
         = ''<p>$'' @ escape_backslashes b @ ''$</p>'' @ mathjax_script"
proof -
  let ?t = "''$'' @ b @ ''$''"
  have s: "split_references ?t = (?t, None)"
    using assms(5) by (intro no_references_heading) simp
  have "\<not> sublist (bsl # ''begin{'') (b @ ''$'')"
    using assms(4) sublist_separator [of "CHR ''$''" "bsl # ''begin{''" b "[]"]
    by simp
  then have nb: "\<not> sublist (bsl # ''begin{'') ?t"
    by (simp add: sublist_Cons_right)
  have d: "re_sub_st m_display extract_display_math None ?t st = (?t, st)" for st
  proof (rule re_sub_st_id)
    fix p u
    assume "suffix u ?t"
    then consider "u = ?t" | "suffix u ''$''" | v where "u = v @ ''$''" "suffix v b" "v \<noteq> []"
      by (auto simp: suffix_Cons suffix_append)
    then have "\<not> prefix ''$$'' u"
    proof cases
      case 1
      then show ?thesis
        using assms(1,2) by (cases b) auto
    next
      case 2
      then show ?thesis
        by (auto simp: suffix_Cons)
    next
      case 3
      then have "hd v \<in> set b"
        by (cases v) (auto simp: suffix_def)
      with 3 assms(2) show ?thesis
        by (cases v) auto
    qed
    then show "m_display p u = None"
      by (simp add: m_display_def)
  qed
  have e: "extract_math ?t init_state =
           (placeholder_format 0 Inline, \<lparr>math_blocks = [(Inline, b)], has_math = True\<rparr>)"
    using inline_pass_single [OF assms(1,2,3), of init_state]
    by (simp only: extract_math_def no_env_in_text [OF nb] d prod.case)
       (simp add: init_state_def)
  show ?thesis
    using single_block_output [OF s e] by (simp add: replacement_def)
qed

lemma suffix_singleton: "suffix [x] t \<longleftrightarrow> t \<noteq> [] \<and> last t = x"
  by (cases t rule: rev_cases) auto

lemma m_citation_other: "c \<noteq> CHR ''['' \<Longrightarrow> m_citation p (c # cs) = None"
  by (simp add: m_citation_def)

lemma markup_not_digit:
  "c \<in> set ''$()*[]#<>- '' \<or> c = bsl \<or> c = nl \<Longrightarrow> \<not> is_digit c"
  by (auto simp: is_digit_def)

lemma digits_not_markup:
  assumes "\<forall>c \<in> set ds. is_digit c"
  shows "c \<in> set ''$()*[]#<>- '' \<or> c = bsl \<or> c = nl \<Longrightarrow> c \<notin> set ds"
  using assms markup_not_digit by blast

lemma citation_in_paragraph:
  assumes "ds \<noteq> []" and "\<forall>c \<in> set ds. is_digit c"
  shows "convert_markdown_to_html (''['' @ ds @ '']'')
         = ''<p>'' @ notmath_open @ ''['' @ ds @ '']</span></p>''"
proof -
  let ?t = "''['' @ ds @ '']''"
  note d = digits_not_markup [OF assms(2)]
  have c: "convert_markdown_to_html ?t =
           protect_citations (process_regular_markdown (protect_parens ?t))"
    by (rule convert_without_math) (simp_all add: d)
  have p: "protect_parens ?t = ?t"
    by (rule parens_absent) (simp add: d)
  have st: "strip ?t = ?t"
    by (rule strip_id) (simp_all add: is_space_def)
  have r: "process_regular_markdown ?t = wrap_paragraph ?t"
    by (rule line_rendered [OF _ _ _ _ st]) (simp_all add: d)
  have w: "wrap_paragraph ?t = ''<p>'' @ ?t @ ''</p>''"
    unfolding wrap_paragraph_def st Let_def by (simp add: suffix_singleton)
  have t: "takeWhile is_digit (ds @ '']</p>'') = ds"
    using assms(2) by (subst takeWhile_append2) (auto simp: is_digit_def)
  have m: "m_citation p (''['' @ ds @ '']</p>'') = Some (length ds + 2, [''['' @ ds @ '']'', ds])" for p
    using assms(1) by (simp add: m_citation_def t)
  have "protect_citations (''<p>'' @ ?t @ ''</p>'') = ''<p>'' @ notmath_open @ ''['' @ ds @ '']</span></p>''"
    by (simp add: protect_citations_def m_citation_other m [simplified] escape_citation_def)
  then show ?thesis
    by (simp only: c p r w)
qed


lemma parenthetical_without_paragraph:
  assumes "\<forall>x \<in> set c. x \<notin> set ''$*#[)'' \<and> x \<noteq> nl \<and> x \<noteq> bsl"
  shows "convert_markdown_to_html (''('' @ c @ '')'') = notmath_open @ ''('' @ c @ '')</span>''"
proof -
  let ?t = "''('' @ c @ '')''"
  let ?s = "notmath_open @ ''('' @ c @ '')</span>''"
  have n: "x \<in> set ''$*#[)'' \<or> x = nl \<or> x = bsl \<Longrightarrow> x \<notin> set c" for x
    using assms by auto
  have cv: "convert_markdown_to_html ?t =
           protect_citations (process_regular_markdown (protect_parens ?t))"
    by (rule convert_without_math) (simp_all add: n)
  have t: "takeWhile (\<lambda>x. x \<noteq> CHR '')'') (c @ '')'') = c"
    using assms by (subst takeWhile_append2) auto
  have m: "m_paren None ?t = Some (length c + 2, [?t, c])"
    by (simp add: m_paren_def t)
  have p: "protect_parens ?t = ?s"
    using m by (simp add: protect_parens_def)
  have st: "strip ?s = ?s"
    by (rule strip_id) (simp_all add: is_space_def notmath_open_def)
  have r: "process_regular_markdown ?s = wrap_paragraph ?s"
    by (rule line_rendered [OF _ _ _ _ st]) (simp_all add: n notmath_open_def)
  have w: "wrap_paragraph ?s = ?s"
    unfolding wrap_paragraph_def st Let_def by (simp add: notmath_open_def)
  have ci: "protect_citations ?s = ?s"
    by (rule citations_absent) (simp add: n notmath_open_def)
  show ?thesis
    by (simp only: cv p r w ci)
qed

section \<open>Placeholder tokens\<close>












section \<open>Plain text alternating with inline math\<close>

















lemma prefix_escape:
  "bsl \<notin> set w \<Longrightarrow> prefix w (escape_backslashes b) \<Longrightarrow> prefix w b"
proof (induction b arbitrary: w)
  case Nil
  then show ?case by (simp add: escape_backslashes_map)
next
  case (Cons c b)
  show ?case
  proof (cases w)
    case Nil
    then show ?thesis by simp
  next
    case (Cons x w')
    have x: "x \<noteq> bsl" and w': "bsl \<notin> set w'"
      using Cons.prems(1) Cons by auto
    have c: "c = x" and p: "prefix w' (escape_backslashes b)"
      using Cons.prems(2) Cons x by (auto simp: escape_backslashes_map split: if_splits)
    from Cons.IH [OF w' p] c Cons show ?thesis by simp
  qed
qed

lemma sublist_escape:
  "bsl \<notin> set w \<Longrightarrow> sublist w (escape_backslashes b) \<Longrightarrow> sublist w b"
proof (induction b)
  case Nil
  then show ?case by (simp add: escape_backslashes_map)
next
  case (Cons c b)
  show ?case
  proof (cases "c = bsl")
    case True
    then have "escape_backslashes (c # b) = [] @ bsl # ([] @ bsl # escape_backslashes b)"
      by (simp add: escape_backslashes_map)
    with Cons.prems have "sublist w [] \<or> sublist w (escape_backslashes b)"
      by (simp only: sublist_separator [OF Cons.prems(1)]) auto
    then show ?thesis
      using Cons.IH [OF Cons.prems(1)] by (auto simp: sublist_Cons_right)
  next
    case False
    then have "escape_backslashes (c # b) = c # escape_backslashes b"
      by (simp add: escape_backslashes_map)
    with Cons.prems(2) consider "prefix w (c # escape_backslashes b)" | "sublist w (escape_backslashes b)"
      by (auto simp: sublist_Cons_right)
    then show ?thesis
    proof cases
      case 1
      then have "prefix w (escape_backslashes (c # b))"
        using False by (simp add: escape_backslashes_map)
      then have "prefix w (c # b)"
        by (rule prefix_escape [OF Cons.prems(1)])
      then show ?thesis by auto
    next
      case 2
      then show ?thesis
        using Cons.IH [OF Cons.prems(1)] by (auto simp: sublist_Cons_right)
    qed
  qed
qed

lemma inline_replacement_clean:
  assumes "\<not> sublist ''MATH_PLACEHOLDER_'' b"
  shows "\<not> sublist ''MATH_PLACEHOLDER_'' (butlast (replacement Inline b))"
    and "replacement Inline b \<noteq> []" and "last (replacement Inline b) = CHR ''$''"
proof -
  have e: "\<not> sublist ''MATH_PLACEHOLDER_'' (escape_backslashes b)"
    using assms sublist_escape [of "''MATH_PLACEHOLDER_''" b] by auto
  have "butlast (replacement Inline b) = [] @ CHR ''$'' # escape_backslashes b"
    by (simp add: replacement_def butlast_append)
  moreover have "\<not> sublist ''MATH_PLACEHOLDER_'' ([] @ CHR ''$'' # escape_backslashes b)"
    using e by (subst sublist_separator) simp_all
  ultimately show "\<not> sublist ''MATH_PLACEHOLDER_'' (butlast (replacement Inline b))"
    by simp
  show "replacement Inline b \<noteq> []" and "last (replacement Inline b) = CHR ''$''"
    by (simp_all add: replacement_def)
qed













section \<open>Verified properties\<close>

section \<open>The line loop: lists and blockquotes\<close>

text \<open>
  C5. The two wrappers are meant to exclude each other. A blockquote line that arrives
  while the list is open takes the \<open>continue\<close> branch of the loop before the list is
  looked at: on the lines \<open>- a\<close>, \<open>> b\<close> both flags are set after the loop, and the list
  is closed only at the end of the input, inside the blockquote.
\<close>

theorem blockquote_after_list_leaves_list_open:
  "in_list (scan_lines [''- a'', ''> b'']) \<and> in_blockquote (scan_lines [''- a'', ''> b''])
   \<and> close_wrappers (scan_lines [''- a'', ''> b'']) =
         [''<ul>'', ''<li>a</li>'', ''<blockquote>'', ''b'', ''</ul>'', ''</blockquote>'']
   \<and> process_regular_markdown (''- a'' @ [nl] @ ''> b'') =
         ''<ul>'' @ [nl] @ ''<li>a</li>'' @ [nl] @ ''<blockquote>'' @ [nl] @ ''b'' @ [nl]
           @ ''</ul>'' @ [nl] @ ''</blockquote>''"
  by code_simp

section \<open>Links\<close>

text \<open>
  C4. A markdown link \<open>[text](url)\<close> is meant to become an anchor, and the renderer alone
  does produce it. In the converter the parenthesis guard runs first and wraps \<open>(url)\<close>
  in a span, so the link pattern no longer finds \<open>](\<close> and no anchor is produced.
\<close>

theorem link_broken_by_paren_guard:
  "convert_markdown_to_html ''[text](url)'' = ''[text]'' @ notmath_open @ ''(url)</span>''
   \<and> process_regular_markdown ''[text](url)'' = ''<a href='' @ [dq] @ ''url'' @ [dq] @ ''>text</a>''"
  by code_simp

section \<open>The References section on an example\<close>

text \<open>
  C7. On the text \<open># Title\<close>, blank line, \<open>Body\<close>, blank line, \<open># References\<close>,
  \<open>[1] Some work.\<close> the split is at the References heading; the main path renders the
  heading and the paragraph \<open>Body\<close>; the References container follows the whole output of
  the main path; in it the citation \<open>[1]\<close> is in the \<open>citation-number\<close> span of the
  References rule, and the output has no \<open>notmath\<close> span of the citation guard.
\<close>

theorem references_isolation_example:
  "convert_markdown_to_html
     (''# Title'' @ [nl, nl] @ ''Body'' @ [nl, nl] @ ''# References'' @ [nl] @ ''[1] Some work.'')
   = ''<h1>Title</h1>'' @ [nl] @ ''<p>Body</p>'' @ [nl]
     @ references_container
         (''<h1>References</h1>'' @ [nl]
          @ ''<span class='' @ [dq] @ ''citation-number'' @ [dq] @ ''>''
          @ ''<span class='' @ [dq] @ ''bracket-content'' @ [dq] @ ''>''
          @ ''<span class='' @ [dq] @ ''bracket-content'' @ [dq] @ ''>''
          @ ''[<em><em><strong>1</strong></em></em>]</span></span></span> Some work.'')
   \<and> \<not> sublist ''notmath''
         (convert_markdown_to_html
            (''# Title'' @ [nl, nl] @ ''Body'' @ [nl, nl] @ ''# References'' @ [nl]
             @ ''[1] Some work.''))
   \<and> split_references
         (''# Title'' @ [nl, nl] @ ''Body'' @ [nl, nl] @ ''# References'' @ [nl] @ ''[1] Some work.'')
       = (''# Title'' @ [nl, nl] @ ''Body'' @ [nl, nl],
          Some (''# References'' @ [nl] @ ''[1] Some work.''))
   \<and> protect_citations
         (process_regular_markdown (protect_parens (''# Title'' @ [nl, nl] @ ''Body'' @ [nl, nl])))
       = ''<h1>Title</h1>'' @ [nl] @ ''<p>Body</p>'' @ [nl]"
  by code_simp

section \<open>Malformed LaTeX\<close>




section \<open>Math bodies and markdown\<close>



section \<open>Restitution\<close>

text \<open>
  C6. Restitution re-wraps a block by its kind, \<open>$$...$$\<close> for align, environment and
  display blocks and \<open>$...$\<close> for inline ones, around the stored text in which every
  backslash is written twice. The loop handles the blocks one after the other in index
  order, each with its own placeholder. An align environment (whose body has no further
  \<open>\begin{align}\<close> or \<open>\end{align}\<close>) is stored with both names rewritten to \<open>align*\<close>,
  and comes out as \<open>$$\\begin{align*}...\\end{align*}$$\<close> with the backslashes of the
  body doubled.
\<close>

theorem restitution_rewraps_by_kind:
  "replacement Align c = ''$$'' @ escape_backslashes c @ ''$$''
   \<and> replacement Env c = ''$$'' @ escape_backslashes c @ ''$$''
   \<and> replacement Display c = ''$$'' @ escape_backslashes c @ ''$$''
   \<and> replacement Inline c = ''$'' @ escape_backslashes c @ ''$''
   \<and> escape_backslashes c = concat (map (\<lambda>x. if x = bsl then [bsl, bsl] else [x]) c)
   \<and> restore_from i [] t = t
   \<and> restore_from i (blocks @ [(k, c)]) t =
       replace (placeholder_format (i + length blocks) k) (replacement k c)
         (restore_from i blocks t)
   \<and> (\<not> sublist (bsl # ''end{align}'') a \<and> \<not> sublist (bsl # ''begin{align}'') a \<longrightarrow>
        extract_math (bsl # ''begin{align}'' @ a @ bsl # ''end{align}'') init_state =
          (placeholder_format 0 Align,
           \<lparr>math_blocks = [(Align, bsl # ''begin{align*}'' @ a @ bsl # ''end{align*}'')],
            has_math = True\<rparr>)
        \<and> (CHR ''#'' \<notin> set a \<longrightarrow>
             convert_markdown_to_html (bsl # ''begin{align}'' @ a @ bsl # ''end{align}'')
             = ''<p>$$'' @ [bsl, bsl] @ ''begin{align*}'' @ escape_backslashes a
               @ [bsl, bsl] @ ''end{align*}$$</p>'' @ mathjax_script))"
  using align_extracted [of a] align_roundtrip [of a] restore_from_snoc [of i blocks k c t]
  by (simp add: replacement_def escape_backslashes_map)

theorem restitution_rewraps_by_kind_witness:
  "\<not> sublist (bsl # ''end{align}'') ('' a &= b '' @ [bsl, bsl] @ '' c &= d '')
   \<and> \<not> sublist (bsl # ''begin{align}'') ('' a &= b '' @ [bsl, bsl] @ '' c &= d '')
   \<and> CHR ''#'' \<notin> set ('' a &= b '' @ [bsl, bsl] @ '' c &= d '')
   \<and> extract_math
         (bsl # ''begin{align} a &= b '' @ [bsl, bsl] @ '' c &= d '' @ bsl # ''end{align}'')
         init_state =
       (''MATH_PLACEHOLDER_0_TYPE_align'',
        \<lparr>math_blocks =
           [(Align, bsl # ''begin{align*} a &= b '' @ [bsl, bsl] @ '' c &= d '' @ bsl # ''end{align*}'')],
         has_math = True\<rparr>)
   \<and> convert_markdown_to_html
         (bsl # ''begin{align} a &= b '' @ [bsl, bsl] @ '' c &= d '' @ bsl # ''end{align}'')
       = ''<p>$$'' @ [bsl, bsl] @ ''begin{align*} a &= b '' @ [bsl, bsl, bsl, bsl] @ '' c &= d ''
         @ [bsl, bsl] @ ''end{align*}$$</p>'' @ mathjax_script"
proof -
  let ?a = "'' a &= b '' @ [bsl, bsl] @ '' c &= d ''"
  have h: "\<not> sublist (bsl # ''end{align}'') ?a \<and> \<not> sublist (bsl # ''begin{align}'') ?a
           \<and> CHR ''#'' \<notin> set ?a"
    by code_simp
  have e: "escape_backslashes ?a = '' a &= b '' @ [bsl, bsl, bsl, bsl] @ '' c &= d ''"
    by (simp add: escape_backslashes_map)
  show ?thesis
    using restitution_rewraps_by_kind [of _ _ _ _ _ ?a] h
    by (simp add: e placeholder_0)
qed

section \<open>Blockquotes\<close>

text \<open>
  C10. A line whose trimmed form starts with \<open>>\<close> contributes its trimmed form without
  any of its leading \<open>>\<close> characters, trimmed again, and opens the blockquote only if none
  is open. So a run of such lines, whatever the number of markers on each, is one
  blockquote element holding their contents, and the blockquote tags the loop appends
  alternate between opening and closing: the renderer never opens a blockquote inside a
  blockquote. The line \<open>>> deep\<close> gives a single blockquote with the content \<open>deep\<close>.
\<close>

theorem blockquote_single_level:
  "(prefix ''>'' (strip line) \<longrightarrow>
      result (scan_line st line) =
        result st @ (if in_blockquote st then [] else [''<blockquote>''])
        @ [strip (lstrip_gt (strip line))]
      \<and> in_blockquote (scan_line st line))
   \<and> \<not> prefix ''>'' (lstrip_gt (strip line))
   \<and> (strip (lstrip_gt (strip line)) = []
        \<or> \<not> is_space (hd (strip (lstrip_gt (strip line))))
          \<and> \<not> is_space (last (strip (lstrip_gt (strip line)))))
   \<and> (ls \<noteq> [] \<and> (\<forall>l \<in> set ls. prefix ''>'' (strip l)) \<longrightarrow>
        close_wrappers (scan_lines ls) =
          ''<blockquote>'' # map (\<lambda>l. strip (lstrip_gt (strip l))) ls @ [''</blockquote>''])
   \<and> prefix (result st @ map tag_text (blockquote_tags st line)) (result (scan_line st line))
   \<and> alternating (in_blockquote st) (blockquote_tags_run st ls)
   \<and> process_regular_markdown ''>> deep'' = ''<blockquote>'' @ [nl] @ ''deep'' @ [nl] @ ''</blockquote>''"
proof -
  have ex: "process_regular_markdown ''>> deep'' = ''<blockquote>'' @ [nl] @ ''deep'' @ [nl] @ ''</blockquote>''"
    by code_simp
  show ?thesis
    using blockquote_line_step [of line st] lstrip_gt_no_marker [of "strip line"]
      strip_trimmed [of "lstrip_gt (strip line)"] blockquote_only_text [of ls]
      blockquote_tags_first [of st line] blockquote_tags_alternate [of st ls] ex
    by blast
qed

theorem blockquote_single_level_witness:
  "prefix ''>'' (strip ''>> deep'')
   \<and> result (scan_line init_render ''>> deep'') = [''<blockquote>'', ''deep'']
   \<and> in_blockquote (scan_line init_render ''>> deep'')
   \<and> prefix ''>'' (strip '' > b'') \<and> prefix ''>'' (strip ''>>>c '')
   \<and> close_wrappers (scan_lines [''>> deep'', '' > b'', ''>>>c '']) =
       [''<blockquote>'', ''deep'', ''b'', ''c'', ''</blockquote>'']"
proof -
  have h1: "prefix ''>'' (strip ''>> deep'')"
    by code_simp
  have h2: "prefix ''>'' (strip '' > b'')"
    by code_simp
  have h3: "prefix ''>'' (strip ''>>>c '')"
    by code_simp
  have v1: "strip (lstrip_gt (strip ''>> deep'')) = ''deep''"
    by code_simp
  have v2: "strip (lstrip_gt (strip '' > b'')) = ''b''"
    by code_simp
  have v3: "strip (lstrip_gt (strip ''>>>c '')) = ''c''"
    by code_simp
  have v4: "result init_render = [] \<and> \<not> in_blockquote init_render"
    by (simp add: init_render_def)
  have a: "result (scan_line init_render ''>> deep'') = [''<blockquote>'', ''deep'']
           \<and> in_blockquote (scan_line init_render ''>> deep'')"
    using blockquote_single_level [of "''>> deep''" init_render "[]"] h1 v4
    by (simp only: v1 if_False append_Nil append_Cons)
  have b: "close_wrappers (scan_lines [''>> deep'', '' > b'', ''>>>c '']) =
           [''<blockquote>'', ''deep'', ''b'', ''c'', ''</blockquote>'']"
    using blockquote_single_level [of "[]" init_render "[''>> deep'', '' > b'', ''>>>c '']"]
      h1 h2 h3
    by (simp add: v1 v2 v3)
  show ?thesis
    using a b h1 h2 h3 by simp
qed

section \<open>The typesetting script\<close>



section \<open>The guards\<close>

text \<open>
  C3 (as amended). After the References section has been split off and the math
  extracted, the parenthesis guard runs on the extracted text, then the renderer, then
  the citation guard on the rendered text; the References rendering is appended last.
  Three consequences, for every text of the given shape: an inline expression \<open>$b$\<close>
  comes out with \<open>b\<close> unguarded, whatever parentheses it has (the guard never sees math);
  a parenthetical \<open>(c)\<close> is wrapped before rendering, so the renderer finds a tag and adds
  no paragraph; a citation \<open>[digits]\<close> is wrapped after rendering, inside the paragraph
  the renderer has made.
\<close>

theorem guards_around_rendering:
  "render_with_placeholders t =
     (case split_references t of (main, refs) \<Rightarrow>
      case extract_math main init_state of (extracted, st) \<Rightarrow>
        (protect_citations (process_regular_markdown (protect_parens extracted))
           @ (case refs of None \<Rightarrow> [] | Some r \<Rightarrow> process_references r), st))
   \<and> (b \<noteq> [] \<and> CHR ''$'' \<notin> set b \<and> nl \<notin> set b \<and> \<not> sublist (bsl # ''begin{'') b
        \<and> CHR ''#'' \<notin> set b \<longrightarrow>
        convert_markdown_to_html (''$'' @ b @ ''$'')
        = ''<p>$'' @ escape_backslashes b @ ''$</p>'' @ mathjax_script)
   \<and> ((\<forall>x \<in> set c. x \<notin> set ''$*#[)'' \<and> x \<noteq> nl \<and> x \<noteq> bsl) \<longrightarrow>
        convert_markdown_to_html (''('' @ c @ '')'') = notmath_open @ ''('' @ c @ '')</span>'')
   \<and> (ds \<noteq> [] \<and> (\<forall>c \<in> set ds. is_digit c) \<longrightarrow>
        convert_markdown_to_html (''['' @ ds @ '']'')
        = ''<p>'' @ notmath_open @ ''['' @ ds @ '']</span></p>'')"
  using render_with_placeholders_order [of t] inline_roundtrip [of b]
    parenthetical_without_paragraph [of c] citation_in_paragraph [of ds]
  by blast

theorem guards_around_rendering_witness:
  "''f(x)'' \<noteq> [] \<and> CHR ''$'' \<notin> set ''f(x)'' \<and> nl \<notin> set ''f(x)''
   \<and> \<not> sublist (bsl # ''begin{'') ''f(x)'' \<and> CHR ''#'' \<notin> set ''f(x)''
   \<and> convert_markdown_to_html ''$f(x)$'' = ''<p>$f(x)$</p>'' @ mathjax_script
   \<and> list_all (\<lambda>x. x \<notin> set ''$*#[)'' \<and> x \<noteq> nl \<and> x \<noteq> bsl) ''see below''
   \<and> convert_markdown_to_html ''(see below)'' = notmath_open @ ''(see below)</span>''
   \<and> ''12'' \<noteq> [] \<and> list_all is_digit ''12''
   \<and> convert_markdown_to_html ''[12]'' = ''<p>'' @ notmath_open @ ''[12]</span></p>''"
proof -
  have h1: "''f(x)'' \<noteq> [] \<and> CHR ''$'' \<notin> set ''f(x)'' \<and> nl \<notin> set ''f(x)''
            \<and> \<not> sublist (bsl # ''begin{'') ''f(x)'' \<and> CHR ''#'' \<notin> set ''f(x)''"
    by code_simp
  have h2: "list_all (\<lambda>x. x \<notin> set ''$*#[)'' \<and> x \<noteq> nl \<and> x \<noteq> bsl) ''see below''"
    by code_simp
  have h3: "''12'' \<noteq> [] \<and> list_all is_digit ''12''"
    by code_simp
  have e: "escape_backslashes ''f(x)'' = ''f(x)''"
    by (simp add: escape_backslashes_map)
  note w = guards_around_rendering [of _ "''f(x)''" "''see below''" "''12''"]
  have a: "convert_markdown_to_html ''$f(x)$'' = ''<p>$f(x)$</p>'' @ mathjax_script"
    using w h1 by (simp add: e)
  have b: "convert_markdown_to_html ''(see below)'' = notmath_open @ ''(see below)</span>''"
    using w h2 by (simp add: list_all_iff)
  have c: "convert_markdown_to_html ''[12]'' = ''<p>'' @ notmath_open @ ''[12]</span></p>''"
    using w h3 by (simp add: list_all_iff)
  show ?thesis
    using h1 h2 h3 a b c by (simp only: simp_thms)
qed

text \<open>
  C3 as stated fails for the citation guard: it runs after the renderer, not before. On
  \<open>[1]\<close> the code yields the citation span inside a paragraph; with both guards before
  rendering the span would stand without a paragraph.
\<close>

theorem citation_guard_runs_after_rendering:
  "fst (extract_math ''[1]'' init_state) = ''[1]''
   \<and> fst (render_with_placeholders ''[1]'') = ''<p>'' @ notmath_open @ ''[1]</span></p>''
   \<and> guards_before_rendering ''[1]'' = notmath_open @ ''[1]</span>''
   \<and> fst (render_with_placeholders ''[1]'')
       \<noteq> guards_before_rendering (fst (extract_math ''[1]'' init_state))"
  by code_simp

section \<open>Placeholders\<close>




text \<open>
  A display block that contains an environment behaves differently again. The
  environment is extracted first, so its token becomes part of the text stored for the
  display block. Restitution replaces the tokens in index order: the inner token, of
  index 0, is looked for before the display block, of index 1, is put back, and it stays
  in the output.
\<close>

lemma nested_environment_token_left:
  "convert_markdown_to_html
     (''$$ f = '' @ bsl # ''begin{cases} x '' @ bsl # ''end{cases} $$'')
   = ''<p>$$ f = MATH_PLACEHOLDER_0_TYPE_env $$</p>'' @ mathjax_script"
  by code_simp

end
